theory Spec2Isabelle
  imports Complex_Main "HOL-Library.AList" "HOL-Library.Product_Lexorder" "HOL-Library.Log_Nat"
begin

section \<open>Errors, dates and the event model (data\_manager.py, util.py)\<close>

text \<open>
  Every exception the Python code can raise on the paths modelled here is a value.
  \<open>SlidingNotPossible\<close> is the repository's own exception class; the others are
  Python's built-in ones.
\<close>

datatype error =
  AssertionError | IndexError | KeyError | TypeError | ZeroDivisionError | SlidingNotPossible

text \<open>
  A naive \<open>datetime.datetime\<close> is a calendar day (its proleptic ordinal) and the
  microsecond within that day; the comparison of two datetimes is the lexicographic
  order of these pairs.
\<close>

type_synonym datetime = "int \<times> int"

definition time_max :: int where
  "time_max = 86399999999"

text \<open>\<open>util.max_of_day\<close>: \<open>datetime.combine(date, time.max)\<close>.\<close>

definition max_of_day :: "datetime \<Rightarrow> datetime" where
  "max_of_day d = (fst d, time_max)"

text \<open>\<open>d + timedelta(days=n)\<close>.\<close>

definition add_days :: "datetime \<Rightarrow> int \<Rightarrow> datetime" where
  "add_days d n = (fst d + n, snd d)"

text \<open>\<open>(a - b).days\<close>: a timedelta is normalised so that its seconds and
  microseconds are non-negative, hence the day count is the floor of the difference.\<close>

definition days_between :: "datetime \<Rightarrow> datetime \<Rightarrow> int" where
  "days_between a b = (fst a - fst b) - (if snd a < snd b then 1 else 0)"

record CodeChange =
  file_path :: string
  change_type :: string
  old_file_path :: "string option"

text \<open>\<open>CodeChange.__init__\<close> with its three assertions.\<close>

definition CodeChange_init :: "string \<Rightarrow> string \<Rightarrow> string option \<Rightarrow> error + CodeChange" where
  "CodeChange_init fp ct old =
     (if ct \<notin> set [''ADD'', ''DELETE'', ''MODIFY'', ''RENAME''] then Inl AssertionError
      else if ct = ''RENAME'' then
        (if old = None then Inl AssertionError
         else Inr \<lparr>file_path = fp, change_type = ct, old_file_path = old\<rparr>)
      else
        (if old \<noteq> None then Inl AssertionError
         else Inr \<lparr>file_path = fp, change_type = ct, old_file_path = old\<rparr>))"

record ChangeSet =
  commit_hash :: string
  author :: string
  date :: datetime
  issues :: "string list"
  code_changes :: "CodeChange list"
  num_files_in_project :: int

text \<open>\<open>ChangeSet.__init__\<close>: the list of code changes must not be empty.\<close>

definition ChangeSet_init ::
  "string \<Rightarrow> string \<Rightarrow> datetime \<Rightarrow> string list \<Rightarrow> CodeChange list \<Rightarrow> int \<Rightarrow> error + ChangeSet" where
  "ChangeSet_init h a d iss ccs n =
     (if ccs = [] then Inl AssertionError
      else Inr \<lparr>commit_hash = h, author = a, date = d, issues = iss,
                code_changes = ccs, num_files_in_project = n\<rparr>)"

text \<open>
  The entries of the dataset file as \<open>json.load\<close> returns them; the date string is
  taken as already parsed by \<open>str_to_date\<close>.
\<close>

record code_change_json =
  j_file_path :: string
  j_change_type :: string
  j_old_file_path :: "string option"

record change_set_json =
  j_commit_hash :: string
  j_author :: string
  j_date :: datetime
  j_issues :: "string list"
  j_code_changes :: "code_change_json list"
  j_num_current_files :: int

section \<open>The window manager (class DataManager)\<close>

text \<open>
  A Python dict keeps its keys in insertion order, so the timeline is an association
  list. \<open>AList.update_with_aux [] k f\<close> is the access \<open>d[k]\<close> of a
  \<open>defaultdict(list)\<close> followed by \<open>f\<close> on the entry: a missing key is appended
  with \<open>f []\<close>, a present one is changed in place.
\<close>

type_synonym timeline = "(datetime \<times> ChangeSet list) list"

fun load_code_changes :: "code_change_json list \<Rightarrow> error + CodeChange list" where
  "load_code_changes [] = Inr []"
| "load_code_changes (c # cs) =
     (case CodeChange_init (j_file_path c) (j_change_type c) (j_old_file_path c) of
        Inl e \<Rightarrow> Inl e
      | Inr cc \<Rightarrow> (case load_code_changes cs of Inl e \<Rightarrow> Inl e | Inr ccs \<Rightarrow> Inr (cc # ccs)))"

definition load_change_set :: "change_set_json \<Rightarrow> error + ChangeSet" where
  "load_change_set j =
     (case load_code_changes (j_code_changes j) of
        Inl e \<Rightarrow> Inl e
      | Inr ccs \<Rightarrow> ChangeSet_init (j_commit_hash j) (j_author j) (max_of_day (j_date j))
                    (j_issues j) ccs (j_num_current_files j))"

text \<open>The first loop of \<open>_generate_date_to_change_sets\<close>.\<close>

fun group_by_date :: "timeline \<Rightarrow> change_set_json list \<Rightarrow> error + timeline" where
  "group_by_date d [] = Inr d"
| "group_by_date d (j # js) =
     (case load_change_set j of
        Inl e \<Rightarrow> Inl e
      | Inr cs \<Rightarrow> group_by_date (AList.update_with_aux [] (date cs) (\<lambda>l. l @ [cs]) d) js)"

text \<open>The loop \<open>while date < last_date\<close> that fills the blanks.\<close>

function fill_blanks :: "timeline \<Rightarrow> datetime \<Rightarrow> datetime \<Rightarrow> timeline" where
  "fill_blanks d dt last_dt =
     (if dt < last_dt
      then fill_blanks (AList.update_with_aux [] dt (\<lambda>l. l) d) (add_days dt 1) last_dt
      else d)"
  by pat_completeness auto
termination
  by (relation "measure (\<lambda>(d, dt, last_dt). nat (fst last_dt - fst dt + 1))")
     (auto simp: add_days_def less_prod_def)

declare fill_blanks.simps [simp del]

text \<open>\<open>util.sort_dict\<close> with its default arguments: \<open>{k: d[k] for k in sorted(d)}\<close>.\<close>

definition sort_dict :: "('k::linorder \<times> 'v) list \<Rightarrow> ('k \<times> 'v) list" where
  "sort_dict d = map (\<lambda>k. (k, the (map_of d k))) (sort (map fst d))"

definition generate_date_to_change_sets :: "change_set_json list \<Rightarrow> error + timeline" where
  "generate_date_to_change_sets js =
     (case group_by_date [] js of
        Inl e \<Rightarrow> Inl e
      | Inr d \<Rightarrow>
          (let dates = map fst d in
           if dates = [] then Inl IndexError
           else Inr (sort_dict (fill_blanks d (hd dates) (last dates)))))"

record DataManager =
  sliding_window_size :: int
  date_to_change_sets :: timeline
  first_date :: "datetime option"
  last_date :: "datetime option"

definition DataManager_init :: "change_set_json list \<Rightarrow> int \<Rightarrow> error + DataManager" where
  "DataManager_init js w =
     (case generate_date_to_change_sets js of
        Inl e \<Rightarrow> Inl e
      | Inr d \<Rightarrow> Inr \<lparr>sliding_window_size = w, date_to_change_sets = d,
                      first_date = None, last_date = None\<rparr>)"

definition get_num_possible_iterations :: "DataManager \<Rightarrow> int" where
  "get_num_possible_iterations dm =
     int (length (date_to_change_sets dm)) - sliding_window_size dm + 1"

text \<open>The loop of \<open>get_initial_window\<close>, with its \<open>break\<close>.\<close>

fun collect_window :: "timeline \<Rightarrow> datetime \<Rightarrow> ChangeSet list" where
  "collect_window [] l = []"
| "collect_window ((k, css) # d) l = (if k > l then [] else css @ collect_window d l)"

definition get_initial_window :: "DataManager \<Rightarrow> error + (ChangeSet list \<times> DataManager)" where
  "get_initial_window dm =
     (case date_to_change_sets dm of
        [] \<Rightarrow> Inl IndexError
      | (k, _) # _ \<Rightarrow>
          (let l = add_days k (sliding_window_size dm - 1);
               dm' = dm\<lparr>first_date := Some k, last_date := Some l\<rparr>
           in if l \<notin> set (map fst (date_to_change_sets dm)) then Inl AssertionError
              else Inr (collect_window (date_to_change_sets dm) l, dm')))"

definition can_slide :: "DataManager \<Rightarrow> error + bool" where
  "can_slide dm =
     (case last_date dm of
        None \<Rightarrow> Inl TypeError
      | Some l \<Rightarrow> Inr (add_days l 1 \<in> set (map fst (date_to_change_sets dm))))"

text \<open>
  \<open>forward_one_day\<close> returns the pair (change sets to add, change sets to remove).
  The timeline returned by \<open>sort_dict\<close> is a plain dict, so reading a missing key
  raises \<open>KeyError\<close>.
\<close>

definition forward_one_day ::
  "DataManager \<Rightarrow> error + ((ChangeSet list \<times> ChangeSet list) \<times> DataManager)" where
  "forward_one_day dm =
     (case can_slide dm of
        Inl e \<Rightarrow> Inl e
      | Inr False \<Rightarrow> Inl SlidingNotPossible
      | Inr True \<Rightarrow>
          (case first_date dm of
             None \<Rightarrow> Inl KeyError
           | Some f \<Rightarrow>
               (case map_of (date_to_change_sets dm) f of
                  None \<Rightarrow> Inl KeyError
                | Some change_sets_remove \<Rightarrow>
                    (case last_date dm of
                       None \<Rightarrow> Inl TypeError
                     | Some l \<Rightarrow>
                         (case map_of (date_to_change_sets dm) (add_days l 1) of
                            None \<Rightarrow> Inl KeyError
                          | Some change_sets_add \<Rightarrow>
                              Inr ((change_sets_add, change_sets_remove),
                                   dm\<lparr>first_date := Some (add_days f 1),
                                      last_date := Some (add_days l 1)\<rparr>))))))"

text \<open>\<open>n\<close> calls of \<open>forward_one_day\<close> in a row; the first exception ends the run.\<close>

fun forward_days :: "nat \<Rightarrow> DataManager \<Rightarrow> error + DataManager" where
  "forward_days 0 dm = Inr dm"
| "forward_days (Suc n) dm =
     (case forward_one_day dm of Inl e \<Rightarrow> Inl e | Inr (_, dm') \<Rightarrow> forward_days n dm')"

subsection \<open>Auxiliary notions for stating the window manager's properties\<close>

text \<open>The \<open>ChangeSet\<close> objects the constructor builds from the dataset, in input order.\<close>

fun load_change_sets :: "change_set_json list \<Rightarrow> error + ChangeSet list" where
  "load_change_sets [] = Inr []"
| "load_change_sets (j # js) =
     (case load_change_set j of
        Inl e \<Rightarrow> Inl e
      | Inr cs \<Rightarrow> (case load_change_sets js of Inl e \<Rightarrow> Inl e | Inr css \<Rightarrow> Inr (cs # css)))"

text \<open>The bucketing loop on change sets that are already built.\<close>

fun bucket :: "timeline \<Rightarrow> ChangeSet list \<Rightarrow> timeline" where
  "bucket d [] = d"
| "bucket d (cs # css) = bucket (AList.update_with_aux [] (date cs) (\<lambda>l. l @ [cs]) d) css"

text \<open>
  The contiguous timeline over the days \<open>a\<close> to \<open>b\<close>: one key per calendar day, at
  the last instant of the day, mapped to the change sets of that day in input order.
\<close>

definition day_buckets :: "ChangeSet list \<Rightarrow> int \<Rightarrow> int \<Rightarrow> timeline" where
  "day_buckets css a b =
     map (\<lambda>i. ((i, time_max), filter (\<lambda>cs. date cs = (i, time_max)) css)) [a .. b]"

text \<open>A dataset entry with one added file, committed at noon of the given day.\<close>

definition entry :: "string \<Rightarrow> string \<Rightarrow> int \<Rightarrow> string \<Rightarrow> int \<Rightarrow> change_set_json" where
  "entry h a day f n =
     \<lparr>j_commit_hash = h, j_author = a, j_date = (day, 43200000000), j_issues = [],
      j_code_changes = [\<lparr>j_file_path = f, j_change_type = ''ADD'', j_old_file_path = None\<rparr>],
      j_num_current_files = n\<rparr>"

text \<open>Three commits on the days 2, 4 and 1, listed in that order.\<close>

definition unordered_dataset :: "change_set_json list" where
  "unordered_dataset =
     [entry ''c1'' ''d1'' 2 ''F1'' 1, entry ''c2'' ''d2'' 4 ''F2'' 2, entry ''c3'' ''d3'' 1 ''F3'' 3]"

text \<open>Two commits on the days 1 and 3, in chronological order.\<close>

definition ordered_dataset :: "change_set_json list" where
  "ordered_dataset = [entry ''c1'' ''d1'' 1 ''F1'' 1, entry ''c2'' ''d2'' 3 ''F2'' 2]"

text \<open>The window manager positioned at the initial window, as \<open>HistoryGraph.__init__\<close>
  leaves it: the constructor followed by \<open>get_initial_window\<close>.\<close>

definition initial_manager :: "change_set_json list \<Rightarrow> int \<Rightarrow> error + DataManager" where
  "initial_manager js w =
     (case DataManager_init js w of
        Inl e \<Rightarrow> Inl e
      | Inr dm0 \<Rightarrow> (case get_initial_window dm0 of Inl e \<Rightarrow> Inl e | Inr (_, dm) \<Rightarrow> Inr dm))"

section \<open>The artifact graph (networkx.Graph as graph.py uses it)\<close>

text \<open>
  \<open>networkx\<close> is a library, not code of this repository; the model below follows
  its documented behaviour for an undirected simple graph. Nodes and edges are kept in
  insertion order, as Python dicts keep them: the nodes with their \<open>kind\<close> attribute
  (\<open>None\<close> when the node has none), every edge once, under the orientation it was
  first inserted with, with its \<open>date\<close> and \<open>kind\<close> attributes. An edge is found
  under either orientation.
\<close>

record edge_attr =
  e_date :: "datetime option"
  e_kind :: "string option"

type_synonym node_dict = "(string \<times> string option) list"
type_synonym edge_dict = "((string \<times> string) \<times> edge_attr) list"

record graph =
  nodes :: node_dict
  edges :: edge_dict

definition empty_graph :: graph where
  "empty_graph = \<lparr>nodes = [], edges = []\<rparr>"

definition empty_attr :: edge_attr where
  "empty_attr = \<lparr>e_date = None, e_kind = None\<rparr>"

definition node_names :: "graph \<Rightarrow> string list" where
  "node_names g = map fst (nodes g)"

definition has_node :: "graph \<Rightarrow> string \<Rightarrow> bool" where
  "has_node g n \<longleftrightarrow> n \<in> set (node_names g)"

text \<open>\<open>G.add_node(n, kind=k)\<close>: a new node is appended, an old one gets its attribute
  overwritten.\<close>

definition add_node :: "graph \<Rightarrow> string \<Rightarrow> string \<Rightarrow> graph" where
  "add_node g n k = g\<lparr>nodes := AList.update n (Some k) (nodes g)\<rparr>"

text \<open>\<open>G.add_nodes_from(ns, kind=k)\<close>.\<close>

definition add_nodes_from :: "graph \<Rightarrow> string list \<Rightarrow> string \<Rightarrow> graph" where
  "add_nodes_from g ns k = fold (\<lambda>n h. add_node h n k) ns g"

text \<open>The key an edge between \<open>u\<close> and \<open>v\<close> is stored under, if there is one.\<close>

definition edge_key :: "edge_dict \<Rightarrow> string \<Rightarrow> string \<Rightarrow> (string \<times> string) option" where
  "edge_key es u v =
     (if (u, v) \<in> fst ` set es then Some (u, v)
      else if (v, u) \<in> fst ` set es then Some (v, u)
      else None)"

text \<open>\<open>G[u][v]\<close>: the attributes of the edge between \<open>u\<close> and \<open>v\<close>.\<close>

definition edge_data :: "graph \<Rightarrow> string \<Rightarrow> string \<Rightarrow> edge_attr option" where
  "edge_data g u v =
     (case edge_key (edges g) u v of None \<Rightarrow> None | Some k \<Rightarrow> map_of (edges g) k)"

text \<open>
  \<open>datadict.update(attr)\<close> for the attributes the code passes: \<open>date\<close> is always
  given, \<open>kind\<close> only by \<open>add_edges_from\<close>.
\<close>

definition set_attrs :: "datetime option \<Rightarrow> string option \<Rightarrow> edge_attr \<Rightarrow> edge_attr" where
  "set_attrs d k a =
     \<lparr>e_date = d, e_kind = (case k of None \<Rightarrow> e_kind a | Some x \<Rightarrow> Some x)\<rparr>"

text \<open>
  \<open>G.add_edge(u, v, date=d)\<close> and one step of \<open>G.add_edges_from(..., kind=k)\<close>:
  nodes that are missing are added without attributes, the attributes of an edge
  that is present are updated in place.
\<close>

definition add_edge ::
  "graph \<Rightarrow> string \<Rightarrow> string \<Rightarrow> datetime option \<Rightarrow> string option \<Rightarrow> graph" where
  "add_edge g u v d k =
     \<lparr>nodes = AList.update_with_aux None v (\<lambda>a. a)
                (AList.update_with_aux None u (\<lambda>a. a) (nodes g)),
      edges = AList.update_with_aux empty_attr
                (case edge_key (edges g) u v of None \<Rightarrow> (u, v) | Some key \<Rightarrow> key)
                (set_attrs d k) (edges g)\<rparr>"

text \<open>\<open>G.remove_nodes_from(ns)\<close>: a node that is not in the graph is skipped.\<close>

definition remove_node :: "graph \<Rightarrow> string \<Rightarrow> graph" where
  "remove_node g n =
     (if has_node g n
      then \<lparr>nodes = AList.delete n (nodes g),
            edges = filter (\<lambda>e. fst (fst e) \<noteq> n \<and> snd (fst e) \<noteq> n) (edges g)\<rparr>
      else g)"

definition remove_nodes_from :: "graph \<Rightarrow> string list \<Rightarrow> graph" where
  "remove_nodes_from g ns = fold (\<lambda>n h. remove_node h n) ns g"

text \<open>\<open>G[n]\<close>: the neighbours of \<open>n\<close> with the attributes of the joining edge.\<close>

definition adjacency :: "edge_dict \<Rightarrow> string \<Rightarrow> (string \<times> edge_attr) list" where
  "adjacency es n =
     concat (map (\<lambda>e. if fst (fst e) = n then [(snd (fst e), snd e)]
                       else if snd (fst e) = n then [(fst (fst e), snd e)] else []) es)"

definition neighbors :: "graph \<Rightarrow> string \<Rightarrow> string list" where
  "neighbors g n = map fst (adjacency (edges g) n)"

text \<open>\<open>nx.isolates(G)\<close>: the nodes of degree 0.\<close>

definition isolates :: "graph \<Rightarrow> string list" where
  "isolates g = filter (\<lambda>n. neighbors g n = []) (node_names g)"

text \<open>
  \<open>G.edges(data=True)\<close>: node by node, every edge to a neighbour that has not been
  the current node before.
\<close>

fun edges_iter :: "edge_dict \<Rightarrow> string list \<Rightarrow> string list \<Rightarrow> (string \<times> string \<times> edge_attr) list" where
  "edges_iter es seen [] = []"
| "edges_iter es seen (n # ns) =
     map (\<lambda>(v, a). (n, v, a)) (filter (\<lambda>(v, a). v \<notin> set seen) (adjacency es n))
     @ edges_iter es (n # seen) ns"

definition graph_edges :: "graph \<Rightarrow> (string \<times> string \<times> edge_attr) list" where
  "graph_edges g = edges_iter (edges g) [] (node_names g)"

text \<open>\<open>mapping.get(n, n)\<close>; a key of the dict may be \<open>None\<close>.\<close>

definition mapping_get :: "(string option \<times> string) list \<Rightarrow> string \<Rightarrow> string" where
  "mapping_get mapping n = (case map_of mapping (Some n) of None \<Rightarrow> n | Some n' \<Rightarrow> n')"

text \<open>
  \<open>nx.relabel_nodes(G, mapping)\<close> with \<open>copy=True\<close>: a new graph gets the renamed
  nodes with their attributes, then the renamed edges with theirs. Where two nodes or
  two edges get the same name they are merged, the later attributes winning.
\<close>

definition relabel_nodes :: "graph \<Rightarrow> (string option \<times> string) list \<Rightarrow> graph" where
  "relabel_nodes g mapping =
     fold (\<lambda>(u, v, a) h. add_edge h (mapping_get mapping u) (mapping_get mapping v)
                            (e_date a) (e_kind a))
          (graph_edges g)
          \<lparr>nodes = fold (\<lambda>(n, a) ns. AList.update (mapping_get mapping n) a ns) (nodes g) [],
           edges = []\<rparr>"

section \<open>The history graph (class HistoryGraph): updating the graph\<close>

text \<open>\<open>_filter_nodes_by_kind\<close>.\<close>

definition filter_nodes_by_kind :: "graph \<Rightarrow> string \<Rightarrow> string list" where
  "filter_nodes_by_kind g kind = map fst (filter (\<lambda>(n, k). k = Some kind) (nodes g))"

text \<open>\<open>_rename_nodes\<close>.\<close>

definition rename_nodes :: "graph \<Rightarrow> (string option \<times> string) list \<Rightarrow> graph" where
  "rename_nodes g mapping = (if mapping = [] then g else relabel_nodes g mapping)"

text \<open>\<open>_remove_nodes\<close>: the given nodes go, then the nodes left without an edge.\<close>

definition remove_nodes :: "graph \<Rightarrow> string list \<Rightarrow> graph" where
  "remove_nodes g ns =
     (if ns = [] then g
      else (let g' = remove_nodes_from g ns in remove_nodes_from g' (isolates g')))"

text \<open>\<open>_remove_change_sets\<close>.\<close>

definition remove_change_sets :: "graph \<Rightarrow> ChangeSet list \<Rightarrow> graph" where
  "remove_change_sets g css = remove_nodes g (map commit_hash css)"

text \<open>The three collections the loop over \<open>cs.code_changes\<close> fills.\<close>

definition files_add_modify :: "ChangeSet \<Rightarrow> string list" where
  "files_add_modify cs =
     map file_path (filter (\<lambda>cc. change_type cc \<noteq> ''DELETE'' \<and> change_type cc \<noteq> ''RENAME'')
                           (code_changes cs))"

definition files_delete :: "ChangeSet \<Rightarrow> string list" where
  "files_delete cs = map file_path (filter (\<lambda>cc. change_type cc = ''DELETE'') (code_changes cs))"

definition files_rename_dict :: "ChangeSet \<Rightarrow> (string option \<times> string) list" where
  "files_rename_dict cs =
     fold (\<lambda>cc d. if change_type cc = ''RENAME''
                   then AList.update (old_file_path cc) (file_path cc) d else d)
          (code_changes cs) []"

text \<open>The part of the loop body of \<open>_add_change_sets\<close> after the \<open>continue\<close>.\<close>

definition add_nodes_and_edges :: "graph \<Rightarrow> ChangeSet \<Rightarrow> graph" where
  "add_nodes_and_edges g cs =
     (let g1 = add_node g (commit_hash cs) ''ChangeSet'';
          g2 = add_node g1 (author cs) ''Developer'';
          g3 = add_edge g2 (author cs) (commit_hash cs) None None;
          g4 = add_nodes_from g3 (files_add_modify cs) ''File'';
          g5 = fold (\<lambda>f h. add_edge h (commit_hash cs) f (Some (date cs)) (Some ''include''))
                    (files_add_modify cs) g4;
          g6 = add_nodes_from g5 (issues cs) ''Issue''
      in fold (\<lambda>i h. add_edge h (commit_hash cs) i (Some (date cs)) (Some ''link''))
              (issues cs) g6)"

text \<open>One pass of the loop body of \<open>_add_change_sets\<close>.\<close>

definition add_change_set :: "int \<Rightarrow> graph \<Rightarrow> ChangeSet \<Rightarrow> graph" where
  "add_change_set num_files_limit g cs =
     (let g1 = rename_nodes g (files_rename_dict cs);
          g2 = remove_nodes g1 (files_delete cs)
      in if int (length (files_add_modify cs)) > num_files_limit then g2
         else add_nodes_and_edges g2 cs)"

text \<open>\<open>_add_change_sets\<close>.\<close>

definition add_change_sets :: "int \<Rightarrow> graph \<Rightarrow> ChangeSet list \<Rightarrow> graph" where
  "add_change_sets num_files_limit g css =
     (if css = [] then g else fold (\<lambda>cs h. add_change_set num_files_limit h cs) css g)"

subsection \<open>The node set and the edge set of a graph\<close>

definition node_set :: "graph \<Rightarrow> string set" where
  "node_set g = set (node_names g)"

text \<open>An undirected edge is the set of its two end points (one for a self-loop).\<close>

definition edge_set :: "graph \<Rightarrow> string set set" where
  "edge_set g = (\<lambda>e. {fst (fst e), snd (fst e)}) ` set (edges g)"

text \<open>
  What every graph that \<open>networkx\<close> builds satisfies: node names are unique, no edge
  is stored twice (under the same or the opposite orientation), and edges join nodes
  of the graph.
\<close>

definition wf_edges :: "edge_dict \<Rightarrow> bool" where
  "wf_edges es \<longleftrightarrow>
     distinct (map fst es) \<and> (\<forall>k \<in> fst ` set es. fst k \<noteq> snd k \<longrightarrow> (snd k, fst k) \<notin> fst ` set es)"

definition closed_graph :: "graph \<Rightarrow> bool" where
  "closed_graph g \<longleftrightarrow> (\<forall>e \<in> edge_set g. e \<subseteq> node_set g)"

definition wf_graph :: "graph \<Rightarrow> bool" where
  "wf_graph g \<longleftrightarrow> distinct (node_names g) \<and> wf_edges (edges g) \<and> closed_graph g"

text \<open>The attribute \<open>kind\<close> of a node: \<open>G.nodes[n].get("kind")\<close>.\<close>

definition node_kind :: "graph \<Rightarrow> string \<Rightarrow> string option" where
  "node_kind g n = (case map_of (nodes g) n of None \<Rightarrow> None | Some k \<Rightarrow> k)"

text \<open>The undirected edges that a list of oriented edges with attributes stands for.\<close>

definition pairs_of :: "(string \<times> string \<times> edge_attr) list \<Rightarrow> string set set" where
  "pairs_of l = (\<lambda>t. {fst t, fst (snd t)}) ` set l"

text \<open>A graph whose node names are unique, whose edges join nodes of the graph and
  that has no node without an edge.\<close>

definition tidy_graph :: "graph \<Rightarrow> bool" where
  "tidy_graph g \<longleftrightarrow> distinct (node_names g) \<and> node_set g = \<Union> (edge_set g)"

text \<open>The edges that one change set contributes, and the effect of one pass of the loop
  of \<open>_add_change_sets\<close> on the edge set.\<close>

definition new_edges :: "ChangeSet \<Rightarrow> string set set" where
  "new_edges cs =
     insert {author cs, commit_hash cs}
       ((\<lambda>f. {commit_hash cs, f}) ` set (files_add_modify cs)
        \<union> (\<lambda>i. {commit_hash cs, i}) ` set (issues cs))"

definition step_edges :: "int \<Rightarrow> ChangeSet \<Rightarrow> string set set \<Rightarrow> string set set" where
  "step_edges num_files_limit cs E =
     {e \<in> (\<lambda>e. mapping_get (files_rename_dict cs) ` e) ` E. e \<inter> set (files_delete cs) = {}}
     \<union> (if int (length (files_add_modify cs)) > num_files_limit then {} else new_edges cs)"

section \<open>The history graph (class HistoryGraph): state, construction and sliding\<close>

text \<open>
  \<open>_current_data\<close>: the structures computed for the current window, \<open>None\<close> until
  they are asked for. A Python float is represented by the rational number it denotes.
\<close>

record cache =
  devG :: "((string \<times> string) \<times> rat) list option"
  dev_to_reachable_files :: "(string \<times> string list) list option"
  dev_to_rare_files :: "(string \<times> string list) list option"
  file_to_devs :: "(string \<times> string list) list option"
  node_kinds :: "(string \<times> string) list option"
  jacks :: "(string \<times> rat) list option"
  mavens :: "(string \<times> rat) list option"
  connectors :: "(string \<times> rat) list option"

definition empty_cache :: cache where
  "empty_cache =
     \<lparr>devG = None, dev_to_reachable_files = None, dev_to_rare_files = None,
      file_to_devs = None, node_kinds = None, jacks = None, mavens = None,
      connectors = None\<rparr>"

record HistoryGraph =
  graph_range_in_days :: int
  distance_limit :: rat
  num_files_limit :: int
  score_threshold :: rat
  number_of_files_in_project :: int
  current_data :: cache
  data_manager :: DataManager
  G :: graph

text \<open>\<open>HistoryGraph.__init__\<close> with \<open>_initialize_graph\<close>; the dataset file is given
  by its entries.\<close>

definition HistoryGraph_init ::
  "change_set_json list \<Rightarrow> int \<Rightarrow> rat \<Rightarrow> int \<Rightarrow> rat \<Rightarrow> error + HistoryGraph" where
  "HistoryGraph_init js days limit files_limit threshold =
     (case DataManager_init js days of
        Inl e \<Rightarrow> Inl e
      | Inr dm \<Rightarrow>
          (case get_initial_window dm of
             Inl e \<Rightarrow> Inl e
           | Inr (change_sets_add, dm') \<Rightarrow>
               if change_sets_add = [] then Inl IndexError
               else Inr \<lparr>graph_range_in_days = days, distance_limit = limit,
                         num_files_limit = files_limit, score_threshold = threshold,
                         number_of_files_in_project =
                           num_files_in_project (last change_sets_add),
                         current_data = empty_cache, data_manager = dm',
                         G = add_change_sets files_limit empty_graph change_sets_add\<rparr>))"

text \<open>
  \<open>forward_graph_one_day\<close>: only \<open>SlidingNotPossible\<close> is caught; the result is
  the returned boolean with the state after the call.
\<close>

definition forward_graph_one_day :: "HistoryGraph \<Rightarrow> error + (bool \<times> HistoryGraph)" where
  "forward_graph_one_day s =
     (case forward_one_day (data_manager s) of
        Inl e \<Rightarrow> (if e = SlidingNotPossible then Inr (False, s) else Inl e)
      | Inr ((change_sets_add, change_sets_remove), dm') \<Rightarrow>
          (let g1 = remove_change_sets (G s) change_sets_remove;
               g2 = add_change_sets (num_files_limit s) g1 change_sets_add
           in Inr (True,
                   s\<lparr>data_manager := dm', G := g2,
                     number_of_files_in_project :=
                       (if change_sets_add \<noteq> []
                        then num_files_in_project (last change_sets_add)
                        else number_of_files_in_project s),
                     current_data := empty_cache\<rparr>)))"

text \<open>The getters that only read.\<close>

definition get_developers :: "HistoryGraph \<Rightarrow> string list" where
  "get_developers s = filter_nodes_by_kind (G s) ''Developer''"

definition get_files :: "HistoryGraph \<Rightarrow> string list" where
  "get_files s = filter_nodes_by_kind (G s) ''File''"

definition get_num_files :: "HistoryGraph \<Rightarrow> int" where
  "get_num_files s = number_of_files_in_project s"

definition get_num_nodes :: "HistoryGraph \<Rightarrow> nat" where
  "get_num_nodes s = length (nodes (G s))"

subsection \<open>Example inputs for the history graph\<close>

text \<open>The history graph over the whole of the ordered dataset (a window of three days,
  the default limits): no day is left to slide to.\<close>

definition whole_range_state :: HistoryGraph where
  "whole_range_state = projr (HistoryGraph_init ordered_dataset 3 10 50 (5 / 1000000))"

text \<open>A graph with two commits of two developers, each touching one file, and a change
  set that adds three files, deletes \<open>F1\<close> and renames \<open>F2\<close>.\<close>

definition two_commit_graph :: graph where
  "two_commit_graph =
     add_change_sets 50 empty_graph
       [\<lparr>commit_hash = ''c1'', author = ''d1'', date = (1, time_max), issues = [],
         code_changes = [\<lparr>file_path = ''F1'', change_type = ''ADD'', old_file_path = None\<rparr>],
         num_files_in_project = 1\<rparr>,
        \<lparr>commit_hash = ''c2'', author = ''d2'', date = (2, time_max), issues = [],
         code_changes = [\<lparr>file_path = ''F2'', change_type = ''ADD'', old_file_path = None\<rparr>],
         num_files_in_project = 2\<rparr>]"

definition big_change_set :: ChangeSet where
  "big_change_set =
     \<lparr>commit_hash = ''c3'', author = ''d3'', date = (3, time_max), issues = [''I1''],
      code_changes =
        [\<lparr>file_path = ''A'', change_type = ''ADD'', old_file_path = None\<rparr>,
         \<lparr>file_path = ''B'', change_type = ''ADD'', old_file_path = None\<rparr>,
         \<lparr>file_path = ''C'', change_type = ''MODIFY'', old_file_path = None\<rparr>,
         \<lparr>file_path = ''F1'', change_type = ''DELETE'', old_file_path = None\<rparr>,
         \<lparr>file_path = ''G2'', change_type = ''RENAME'', old_file_path = Some ''F2''\<rparr>],
      num_files_in_project = 4\<rparr>"

section \<open>Division of integers in floating point\<close>

text \<open>
  A Python float is an IEEE 754 double: 53 significant bits, the exponent of a normal
  number at least \<open>-1022\<close>, below that the subnormal numbers with the fixed spacing
  \<open>2 ^ -1074\<close>. A finite double is represented here by the rational it denotes.

  \<open>round_half_even\<close> is rounding to the nearest integer, a tie going to the even one;
  \<open>binade x\<close> is the exponent \<open>e\<close> with \<open>2 ^ e \<le> \<bar>x\<bar> < 2 ^ (e + 1)\<close> of a non-zero
  \<open>x\<close>; \<open>round_double x\<close> is the double nearest to \<open>x\<close>, a multiple of the spacing of
  the doubles around \<open>x\<close>.
\<close>

definition round_half_even :: "rat \<Rightarrow> int" where
  "round_half_even x =
     (let n = \<lfloor>x\<rfloor>; r = x - of_int n
      in if r < 1 / 2 then n else if 1 / 2 < r then n + 1 else if even n then n else n + 1)"

definition binade :: "rat \<Rightarrow> int" where
  "binade x =
     (case quotient_of \<bar>x\<bar> of
        (a, b) \<Rightarrow> (let e = bitlen a - bitlen b in if \<bar>x\<bar> < 2 powi e then e - 1 else e))"

definition round_double :: "rat \<Rightarrow> rat" where
  "round_double x =
     (let ulp = 2 powi (max (binade x) (- 1022) - 52)
      in of_int (round_half_even (x / ulp)) * ulp)"

text \<open>
  The true division \<open>a / b\<close> of two Python integers: \<open>ZeroDivisionError\<close> for the
  divisor 0, otherwise the correctly rounded quotient. Python raises
  \<open>OverflowError\<close> when the quotient is beyond the largest double; the dividends of
  the code below are lengths of lists and the divisors non-zero integers, so that the
  quotients stay below \<open>2 ^ 63\<close> and this branch is not part of the model.
\<close>

definition truediv :: "int \<Rightarrow> int \<Rightarrow> error + rat" where
  "truediv a b =
     (if b = 0 then Inl ZeroDivisionError else Inr (round_double (of_int a / of_int b)))"


section \<open>The history graph: reachable files, rare files and the score tables\<close>

text \<open>\<open>_which_day\<close>: without a window the subtraction of \<open>None\<close> raises a
  \<open>TypeError\<close>.\<close>

definition which_day :: "HistoryGraph \<Rightarrow> datetime \<Rightarrow> error + int" where
  "which_day s edge_date =
     (case first_date (data_manager s) of
        None \<Rightarrow> Inl TypeError
      | Some first_date_in_graph \<Rightarrow> Inr (days_between edge_date first_date_in_graph + 1))"

text \<open>A distance is a rational or \<open>float("inf")\<close>. The two divisions of
  \<open>_calculate_distance\<close> and the additions of the search are exact here; what is
  proved of the score tables below holds for whatever files the search reaches and
  does not depend on the value of a distance.\<close>

datatype distance = Finite rat | Infinite

text \<open>\<open>_calculate_distance\<close>.\<close>

definition calculate_distance :: "HistoryGraph \<Rightarrow> datetime option \<Rightarrow> error + distance" where
  "calculate_distance s edge_date =
     (case edge_date of
        None \<Rightarrow> Inr (Finite 0)
      | Some d \<Rightarrow>
          (case which_day s d of
             Inl e \<Rightarrow> Inl e
           | Inr day \<Rightarrow>
               if graph_range_in_days s = 0 then Inl ZeroDivisionError
               else (let recency = of_int day / of_int (graph_range_in_days s)
                     in if recency = 0 then Inr Infinite else Inr (Finite (1 / recency)))))"

text \<open>\<open>nx.get_node_attributes(G, "kind")\<close>: the nodes that have the attribute.\<close>

definition node_kinds_of :: "graph \<Rightarrow> (string \<times> string) list" where
  "node_kinds_of g = concat (map (\<lambda>(n, k). case k of None \<Rightarrow> [] | Some x \<Rightarrow> [(n, x)]) (nodes g))"

text \<open>
  The loop of \<open>_find_reachable_files\<close>. The top of the stack is the head of the list;
  an entry holds the parent, the distance to it and the children its iterator has
  not yet delivered. \<open>node_kinds[child]\<close> raises \<open>KeyError\<close> for a node without
  a kind; adding an infinite distance exceeds every limit.
\<close>

lemma card_unvisited_less:
  assumes "map_of kinds child = Some kind" "child \<notin> set visited"
  shows "card (fst ` set kinds - insert child (set visited)) < card (fst ` set kinds - set visited)"
proof -
  have "(child, kind) \<in> set kinds" using assms(1) by (rule map_of_SomeD)
  then have "child \<in> fst ` set kinds" by (rule image_eqI[rotated]) simp
  then have m: "child \<in> fst ` set kinds - set visited" using assms(2) by simp
  have f: "finite (fst ` set kinds - set visited)" by simp
  have "fst ` set kinds - insert child (set visited)
          = (fst ` set kinds - set visited) - {child}"
    by auto
  then show ?thesis using card_Diff1_less[OF f m] by simp
qed

function find_reachable_loop ::
  "HistoryGraph \<Rightarrow> (string \<times> string) list \<Rightarrow> string list \<Rightarrow> string list
     \<Rightarrow> (string \<times> rat \<times> string list) list \<Rightarrow> error + string list" where
  "find_reachable_loop s kinds visited reachable_files [] = Inr reachable_files"
| "find_reachable_loop s kinds visited reachable_files ((parent, distance_now, []) # stack) =
     find_reachable_loop s kinds visited reachable_files stack"
| "find_reachable_loop s kinds visited reachable_files
     ((parent, distance_now, child # children) # stack) =
     (if child \<in> set visited
      then find_reachable_loop s kinds visited reachable_files
             ((parent, distance_now, children) # stack)
      else
        (case edge_data (G s) parent child of
           None \<Rightarrow> Inl KeyError
         | Some a \<Rightarrow>
             (case calculate_distance s (e_date a) of
                Inl e \<Rightarrow> Inl e
              | Inr Infinite \<Rightarrow>
                  find_reachable_loop s kinds visited reachable_files
                    ((parent, distance_now, children) # stack)
              | Inr (Finite d) \<Rightarrow>
                  if distance_now + d > distance_limit s
                  then find_reachable_loop s kinds visited reachable_files
                         ((parent, distance_now, children) # stack)
                  else
                    (case map_of kinds child of
                       None \<Rightarrow> Inl KeyError
                     | Some kind \<Rightarrow>
                         if kind = ''Developer''
                         then find_reachable_loop s kinds visited reachable_files
                                ((parent, distance_now, children) # stack)
                         else find_reachable_loop s kinds (child # visited)
                                (if kind = ''File'' then reachable_files @ [child]
                                 else reachable_files)
                                ((child, distance_now + d, neighbors (G s) child)
                                 # (parent, distance_now, children) # stack)))))"
  by pat_completeness auto
termination
  by (relation "measures
        [\<lambda>(s, kinds, visited, reachable_files, stack). card (fst ` set kinds - set visited),
         \<lambda>(s, kinds, visited, reachable_files, stack).
            sum_list (map (\<lambda>(p, d, c). Suc (length c)) stack)]")
     (simp_all add: card_unvisited_less)

declare find_reachable_loop.simps [simp del]

text \<open>\<open>_get_node_kinds\<close>: computed once per window.\<close>

definition get_node_kinds :: "HistoryGraph \<Rightarrow> (string \<times> string) list \<times> HistoryGraph" where
  "get_node_kinds s =
     (case node_kinds (current_data s) of
        Some kinds \<Rightarrow> (kinds, s)
      | None \<Rightarrow>
          (let kinds = node_kinds_of (G s)
           in (kinds, s\<lparr>current_data := (current_data s)\<lparr>node_kinds := Some kinds\<rparr>\<rparr>)))"

text \<open>\<open>_find_reachable_files\<close>: \<open>G[developer]\<close> raises \<open>KeyError\<close> for a
  developer that is not a node.\<close>

definition find_reachable_files ::
  "HistoryGraph \<Rightarrow> string \<Rightarrow> error + (string list \<times> HistoryGraph)" where
  "find_reachable_files s developer =
     (case get_node_kinds s of
        (kinds, s1) \<Rightarrow>
          if \<not> has_node (G s1) developer then Inl KeyError
          else (case find_reachable_loop s1 kinds [developer] []
                       [(developer, 0, neighbors (G s1) developer)] of
                  Inl e \<Rightarrow> Inl e
                | Inr reachable_files \<Rightarrow> Inr (reachable_files, s1)))"

text \<open>The loop of \<open>get_dev_to_reachable_files\<close> over the developers.\<close>

fun reachable_files_loop ::
  "HistoryGraph \<Rightarrow> string list \<Rightarrow> (string \<times> string list) list
     \<Rightarrow> error + ((string \<times> string list) list \<times> HistoryGraph)" where
  "reachable_files_loop s [] acc = Inr (acc, s)"
| "reachable_files_loop s (dev # devs) acc =
     (case find_reachable_files s dev of
        Inl e \<Rightarrow> Inl e
      | Inr (files, s1) \<Rightarrow> reachable_files_loop s1 devs (AList.update dev files acc))"

definition get_dev_to_reachable_files ::
  "HistoryGraph \<Rightarrow> error + ((string \<times> string list) list \<times> HistoryGraph)" where
  "get_dev_to_reachable_files s =
     (case dev_to_reachable_files (current_data s) of
        Some d \<Rightarrow> Inr (d, s)
      | None \<Rightarrow>
          (case reachable_files_loop s (get_developers s) [] of
             Inl e \<Rightarrow> Inl e
           | Inr (d, s1) \<Rightarrow>
               Inr (d, s1\<lparr>current_data :=
                            (current_data s1)\<lparr>dev_to_reachable_files := Some d\<rparr>\<rparr>)))"

text \<open>The two nested loops of \<open>get_file_to_devs\<close> over a \<open>defaultdict(list)\<close>.\<close>

definition invert_dev_to_files ::
  "(string \<times> string list) list \<Rightarrow> (string \<times> string list) list" where
  "invert_dev_to_files dev_to_files =
     fold (\<lambda>(dev, reachable_files) acc.
             fold (\<lambda>f acc'. AList.update_with_aux [] f (\<lambda>l. l @ [dev]) acc') reachable_files acc)
          dev_to_files []"

definition get_file_to_devs ::
  "HistoryGraph \<Rightarrow> error + ((string \<times> string list) list \<times> HistoryGraph)" where
  "get_file_to_devs s =
     (case file_to_devs (current_data s) of
        Some d \<Rightarrow> Inr (d, s)
      | None \<Rightarrow>
          (case get_dev_to_reachable_files s of
             Inl e \<Rightarrow> Inl e
           | Inr (dev_to_files, s1) \<Rightarrow>
               (let d = invert_dev_to_files dev_to_files
                in Inr (d, s1\<lparr>current_data := (current_data s1)\<lparr>file_to_devs := Some d\<rparr>\<rparr>))))"

text \<open>The loop of \<open>get_dev_to_rare_files\<close>: a file with exactly one developer is
  appended to that developer's list.\<close>

definition rare_files_of ::
  "(string \<times> string list) list \<Rightarrow> (string \<times> string list) list" where
  "rare_files_of file_to_devs_dict =
     fold (\<lambda>(f, devs) acc.
             if length devs = 1 then AList.update_with_aux [] (hd devs) (\<lambda>l. l @ [f]) acc
             else acc)
          file_to_devs_dict []"

definition get_dev_to_rare_files ::
  "HistoryGraph \<Rightarrow> error + ((string \<times> string list) list \<times> HistoryGraph)" where
  "get_dev_to_rare_files s =
     (case dev_to_rare_files (current_data s) of
        Some d \<Rightarrow> Inr (d, s)
      | None \<Rightarrow>
          (case get_file_to_devs s of
             Inl e \<Rightarrow> Inl e
           | Inr (f2d, s1) \<Rightarrow>
               (let d = rare_files_of f2d
                in Inr (d, s1\<lparr>current_data :=
                                (current_data s1)\<lparr>dev_to_rare_files := Some d\<rparr>\<rparr>))))"

text \<open>\<open>get_num_rare_files\<close>.\<close>

definition get_num_rare_files :: "HistoryGraph \<Rightarrow> error + (int \<times> HistoryGraph)" where
  "get_num_rare_files s =
     (case get_dev_to_rare_files s of
        Inl e \<Rightarrow> Inl e
      | Inr (d, s1) \<Rightarrow> Inr (int (sum_list (map (\<lambda>(dev, files). length files) d)), s1))"

text \<open>
  \<open>_sort_and_filter\<close>: \<open>sorted\<close> with \<open>reverse=True\<close> is stable, that is, the
  stable sort by the negated score.
\<close>

definition sort_and_filter :: "rat \<Rightarrow> (string \<times> rat) list \<Rightarrow> (string \<times> rat) list" where
  "sort_and_filter threshold d =
     map (\<lambda>k. (k, the (map_of d k)))
       (filter (\<lambda>k. the (map_of d k) \<ge> threshold)
          (sort_key (\<lambda>k. - the (map_of d k)) (map fst d)))"

text \<open>
  The loop that both score tables run: every entry is the length of the developer's
  list divided, in floating point, by a count that is the same for the whole loop; the
  division raises \<open>ZeroDivisionError\<close> for the count 0.
\<close>

fun score_loop ::
  "(string \<times> string list) list \<Rightarrow> int \<Rightarrow> (string \<times> rat) list \<Rightarrow> error + (string \<times> rat) list" where
  "score_loop [] n acc = Inr acc"
| "score_loop ((dev, files) # rest) n acc =
     (case truediv (int (length files)) n of
        Inl e \<Rightarrow> Inl e
      | Inr score \<Rightarrow> score_loop rest n (AList.update dev score acc))"

text \<open>The table \<open>dev_to_file_coverage\<close> of \<open>get_jacks\<close>, before it is sorted and
  filtered.\<close>

definition dev_to_file_coverage ::
  "HistoryGraph \<Rightarrow> error + ((string \<times> rat) list \<times> HistoryGraph)" where
  "dev_to_file_coverage s =
     (case get_dev_to_reachable_files s of
        Inl e \<Rightarrow> Inl e
      | Inr (dev_to_files, s1) \<Rightarrow>
          (case score_loop dev_to_files (get_num_files s1) [] of
             Inl e \<Rightarrow> Inl e
           | Inr table \<Rightarrow> Inr (table, s1)))"

definition get_jacks :: "HistoryGraph \<Rightarrow> error + ((string \<times> rat) list \<times> HistoryGraph)" where
  "get_jacks s =
     (case jacks (current_data s) of
        Some d \<Rightarrow> Inr (d, s)
      | None \<Rightarrow>
          (case dev_to_file_coverage s of
             Inl e \<Rightarrow> Inl e
           | Inr (table, s1) \<Rightarrow>
               (let d = sort_and_filter (score_threshold s1) table
                in Inr (d, s1\<lparr>current_data := (current_data s1)\<lparr>jacks := Some d\<rparr>\<rparr>))))"

text \<open>The table \<open>dev_to_mavenness\<close> of \<open>get_mavens\<close>, before it is sorted and
  filtered.\<close>

definition dev_to_mavenness ::
  "HistoryGraph \<Rightarrow> error + ((string \<times> rat) list \<times> HistoryGraph)" where
  "dev_to_mavenness s =
     (case get_dev_to_rare_files s of
        Inl e \<Rightarrow> Inl e
      | Inr (dev_to_rare, s1) \<Rightarrow>
          (case get_num_rare_files s1 of
             Inl e \<Rightarrow> Inl e
           | Inr (num_rare_files, s2) \<Rightarrow>
               (case score_loop dev_to_rare num_rare_files [] of
                  Inl e \<Rightarrow> Inl e
                | Inr table \<Rightarrow> Inr (table, s2))))"

definition get_mavens :: "HistoryGraph \<Rightarrow> error + ((string \<times> rat) list \<times> HistoryGraph)" where
  "get_mavens s =
     (case mavens (current_data s) of
        Some d \<Rightarrow> Inr (d, s)
      | None \<Rightarrow>
          (case dev_to_mavenness s of
             Inl e \<Rightarrow> Inl e
           | Inr (table, s1) \<Rightarrow>
               (let d = sort_and_filter (score_threshold s1) table
                in Inr (d, s1\<lparr>current_data := (current_data s1)\<lparr>mavens := Some d\<rparr>\<rparr>))))"

section \<open>The states a history graph goes through\<close>

text \<open>
  A history graph is built by the constructor; afterwards the caller slides it forward
  and reads the structures of the current window, in any order. The getters fill the
  memo \<open>_current_data\<close>, so they are steps too.
\<close>

inductive reachable :: "HistoryGraph \<Rightarrow> bool" where
  init: "HistoryGraph_init js days limit files_limit threshold = Inr s \<Longrightarrow> reachable s"
| forward: "reachable s \<Longrightarrow> forward_graph_one_day s = Inr (b, s') \<Longrightarrow> reachable s'"
| node_kinds: "reachable s \<Longrightarrow> get_node_kinds s = (v, s') \<Longrightarrow> reachable s'"
| reachable_files: "reachable s \<Longrightarrow> get_dev_to_reachable_files s = Inr (d, s') \<Longrightarrow> reachable s'"
| file_to_devs: "reachable s \<Longrightarrow> get_file_to_devs s = Inr (d, s') \<Longrightarrow> reachable s'"
| rare_files: "reachable s \<Longrightarrow> get_dev_to_rare_files s = Inr (d, s') \<Longrightarrow> reachable s'"
| num_rare_files: "reachable s \<Longrightarrow> get_num_rare_files s = Inr (n, s') \<Longrightarrow> reachable s'"
| jacks: "reachable s \<Longrightarrow> get_jacks s = Inr (t, s') \<Longrightarrow> reachable s'"
| mavens: "reachable s \<Longrightarrow> get_mavens s = Inr (t, s') \<Longrightarrow> reachable s'"

text \<open>What the memo holds when it is filled: the value computed from the graph and the
  window of the current position.\<close>

fun reachable_files_table ::
  "HistoryGraph \<Rightarrow> (string \<times> string) list \<Rightarrow> string list \<Rightarrow> (string \<times> string list) list
     \<Rightarrow> error + (string \<times> string list) list" where
  "reachable_files_table s kinds [] acc = Inr acc"
| "reachable_files_table s kinds (dev # devs) acc =
     (if \<not> has_node (G s) dev then Inl KeyError
      else (case find_reachable_loop s kinds [dev] [] [(dev, 0, neighbors (G s) dev)] of
              Inl e \<Rightarrow> Inl e
            | Inr files \<Rightarrow> reachable_files_table s kinds devs (AList.update dev files acc)))"

definition window_reachable_files :: "HistoryGraph \<Rightarrow> error + (string \<times> string list) list" where
  "window_reachable_files s =
     reachable_files_table s (node_kinds_of (G s)) (get_developers s) []"

definition window_file_to_devs :: "HistoryGraph \<Rightarrow> error + (string \<times> string list) list" where
  "window_file_to_devs s =
     (case window_reachable_files s of Inl e \<Rightarrow> Inl e | Inr d \<Rightarrow> Inr (invert_dev_to_files d))"

definition window_rare_files :: "HistoryGraph \<Rightarrow> error + (string \<times> string list) list" where
  "window_rare_files s =
     (case window_file_to_devs s of Inl e \<Rightarrow> Inl e | Inr d \<Rightarrow> Inr (rare_files_of d))"

definition total_files :: "(string \<times> string list) list \<Rightarrow> int" where
  "total_files d = int (sum_list (map (\<lambda>(dev, files). length files) d))"

definition window_jacks :: "HistoryGraph \<Rightarrow> error + (string \<times> rat) list" where
  "window_jacks s =
     (case window_reachable_files s of
        Inl e \<Rightarrow> Inl e
      | Inr d \<Rightarrow>
          (case score_loop d (get_num_files s) [] of
             Inl e \<Rightarrow> Inl e
           | Inr table \<Rightarrow> Inr (sort_and_filter (score_threshold s) table)))"

definition window_mavens :: "HistoryGraph \<Rightarrow> error + (string \<times> rat) list" where
  "window_mavens s =
     (case window_rare_files s of
        Inl e \<Rightarrow> Inl e
      | Inr d \<Rightarrow>
          (case score_loop d (total_files d) [] of
             Inl e \<Rightarrow> Inl e
           | Inr table \<Rightarrow> Inr (sort_and_filter (score_threshold s) table)))"

definition coherent :: "HistoryGraph \<Rightarrow> bool" where
  "coherent s \<longleftrightarrow>
     (\<forall>v. node_kinds (current_data s) = Some v \<longrightarrow> v = node_kinds_of (G s))
   \<and> (\<forall>v. dev_to_reachable_files (current_data s) = Some v \<longrightarrow> window_reachable_files s = Inr v)
   \<and> (\<forall>v. file_to_devs (current_data s) = Some v \<longrightarrow> window_file_to_devs s = Inr v)
   \<and> (\<forall>v. dev_to_rare_files (current_data s) = Some v \<longrightarrow> window_rare_files s = Inr v)
   \<and> (\<forall>v. jacks (current_data s) = Some v \<longrightarrow> window_jacks s = Inr v)
   \<and> (\<forall>v. mavens (current_data s) = Some v \<longrightarrow> window_mavens s = Inr v)"

text \<open>A getter agrees with the value of the window: it fails with the same exception,
  or it returns that value and leaves a state that differs at most in the memo, which
  is still coherent.\<close>

definition agrees :: "error + ('a \<times> HistoryGraph) \<Rightarrow> error + 'a \<Rightarrow> HistoryGraph \<Rightarrow> bool" where
  "agrees r p s \<longleftrightarrow>
     (case p of
        Inl e \<Rightarrow> r = Inl e
      | Inr v \<Rightarrow> (\<exists>c. r = Inr (v, s\<lparr>current_data := c\<rparr>) \<and> coherent (s\<lparr>current_data := c\<rparr>)))"

subsection \<open>More example inputs\<close>

text \<open>Two developers who commit to the same file on consecutive days; the history
  graph over both days.\<close>

definition shared_file_dataset :: "change_set_json list" where
  "shared_file_dataset = [entry ''c1'' ''d1'' 1 ''F1'' 1, entry ''c2'' ''d2'' 2 ''F1'' 1]"

definition shared_file_state :: HistoryGraph where
  "shared_file_state = projr (HistoryGraph_init shared_file_dataset 2 10 50 (5 / 1000000))"

text \<open>A table of rare files as \<open>get_dev_to_rare_files\<close> builds it: one entry per
  developer, none with an empty list.\<close>

definition rare_ok :: "(string \<times> string list) list \<Rightarrow> bool" where
  "rare_ok d \<longleftrightarrow> distinct (map fst d) \<and> (\<forall>p \<in> set d. snd p \<noteq> [])"

text \<open>Every node carries a \<open>kind\<close>.\<close>

definition kinded :: "graph \<Rightarrow> bool" where
  "kinded g \<longleftrightarrow> (\<forall>p \<in> set (nodes g). snd p \<noteq> None)"

text \<open>What holds of a history graph once it is constructed: the window is set, it is at
  least one day wide, and the artifact graph has uniquely named nodes with a kind, no
  node without an edge and no edge to a missing node.\<close>

definition valid_state :: "HistoryGraph \<Rightarrow> bool" where
  "valid_state s \<longleftrightarrow>
     first_date (data_manager s) \<noteq> None \<and> graph_range_in_days s \<noteq> 0
     \<and> tidy_graph (G s) \<and> kinded (G s)"

text \<open>One commit adds the only file and the next one deletes it: the last change set
  of the window reports a project without files, so the baseline is 0.\<close>

definition zero_baseline_dataset :: "change_set_json list" where
  "zero_baseline_dataset =
     [entry ''c1'' ''d1'' 1 ''F1'' 1,
      \<lparr>j_commit_hash = ''c2'', j_author = ''d2'', j_date = (2, 43200000000), j_issues = [],
       j_code_changes = [\<lparr>j_file_path = ''F1'', j_change_type = ''DELETE'',
                          j_old_file_path = None\<rparr>],
       j_num_current_files = 0\<rparr>]"

definition zero_baseline_state :: HistoryGraph where
  "zero_baseline_state = projr (HistoryGraph_init zero_baseline_dataset 2 10 50 (5 / 1000000))"

text \<open>Six developers who each add one file of their own on the same day; the history
  graph over that day.\<close>

definition six_developer_dataset :: "change_set_json list" where
  "six_developer_dataset =
     [entry ''c1'' ''d1'' 1 ''F1'' 1, entry ''c2'' ''d2'' 1 ''F2'' 2,
      entry ''c3'' ''d3'' 1 ''F3'' 3, entry ''c4'' ''d4'' 1 ''F4'' 4,
      entry ''c5'' ''d5'' 1 ''F5'' 5, entry ''c6'' ''d6'' 1 ''F6'' 6]"

definition six_developer_state :: HistoryGraph where
  "six_developer_state = projr (HistoryGraph_init six_developer_dataset 1 10 50 (5 / 1000000))"

section \<open>Rebuilding the graph from scratch\<close>

text \<open>The change sets of the current window, day by day in ascending order.\<close>

definition window_change_sets :: "DataManager \<Rightarrow> ChangeSet list" where
  "window_change_sets dm =
     (case first_date dm of
        None \<Rightarrow> []
      | Some f \<Rightarrow>
          (case last_date dm of
             None \<Rightarrow> []
           | Some l \<Rightarrow>
               concat (map snd (filter (\<lambda>p. f \<le> fst p \<and> fst p \<le> l) (date_to_change_sets dm)))))"

text \<open>The graph that \<open>_add_change_sets\<close> builds from the empty graph and all change sets
  of the current window.\<close>

definition rebuilt_graph :: "HistoryGraph \<Rightarrow> graph" where
  "rebuilt_graph s =
     add_change_sets (num_files_limit s) empty_graph (window_change_sets (data_manager s))"

text \<open>All change sets of the dataset, as the timeline holds them.\<close>

definition all_change_sets :: "DataManager \<Rightarrow> ChangeSet list" where
  "all_change_sets dm = concat (map snd (date_to_change_sets dm))"

text \<open>
  The names a change set uses besides its commit id: its author, its issue ids and
  the file paths, old and new, of its code changes.
\<close>

definition other_names :: "ChangeSet \<Rightarrow> string set" where
  "other_names cs =
     insert (author cs)
       (set (issues cs) \<union> file_path ` set (code_changes cs)
        \<union> {p. Some p \<in> old_file_path ` set (code_changes cs)})"

text \<open>
  The data model's assumption on identifiers: a commit id names one change set, and
  no commit id is also an author, an issue id or a file path.
\<close>

definition separate_commit_ids :: "ChangeSet list \<Rightarrow> bool" where
  "separate_commit_ids css \<longleftrightarrow>
     distinct (map commit_hash css)
     \<and> (\<forall>cs \<in> set css. \<forall>cs' \<in> set css. commit_hash cs \<notin> other_names cs')"

text \<open>What holds of the window manager of a constructed history graph: the keys of the
  timeline ascend strictly and lie at the last instant of their day, and so do the
  bounds of the window, the first before the last.\<close>

definition window_ok :: "DataManager \<Rightarrow> bool" where
  "window_ok dm \<longleftrightarrow>
     sorted_wrt (<) (map fst (date_to_change_sets dm))
     \<and> (\<forall>k \<in> fst ` set (date_to_change_sets dm). snd k = time_max)
     \<and> (\<exists>f l. first_date dm = Some f \<and> last_date dm = Some l
              \<and> snd f = time_max \<and> snd l = time_max \<and> f \<le> l)"

text \<open>
  The invariant of the incremental update: when the commit ids are separate, the edges
  of the artifact graph are those that \<open>_add_change_sets\<close> produces from no edges
  and the change sets of the window.
\<close>

definition rebuild_inv :: "HistoryGraph \<Rightarrow> bool" where
  "rebuild_inv s \<longleftrightarrow>
     window_ok (data_manager s) \<and> tidy_graph (G s)
     \<and> (separate_commit_ids (all_change_sets (data_manager s)) \<longrightarrow>
          edge_set (G s)
            = fold (step_edges (num_files_limit s)) (window_change_sets (data_manager s)) {})"

text \<open>Three commits on three consecutive days, the second one modifying the file that
  the first one added and linked to an issue; the history graph over the first two
  days.\<close>

definition three_day_dataset :: "change_set_json list" where
  "three_day_dataset =
     [entry ''c1'' ''d1'' 1 ''F1'' 1,
      \<lparr>j_commit_hash = ''c2'', j_author = ''d2'', j_date = (2, 43200000000),
       j_issues = [''I1''],
       j_code_changes = [\<lparr>j_file_path = ''F1'', j_change_type = ''MODIFY'',
                          j_old_file_path = None\<rparr>],
       j_num_current_files = 1\<rparr>,
      entry ''c3'' ''d1'' 3 ''F3'' 2]"

definition two_day_window_state :: HistoryGraph where
  "two_day_window_state = projr (HistoryGraph_init three_day_dataset 2 10 50 (5 / 1000000))"

section \<open>Properties of the window manager\<close>

subsection \<open>The bucketing loop\<close>

lemma group_by_date_bucket:
  "group_by_date d js = (case load_change_sets js of Inl e \<Rightarrow> Inl e | Inr css \<Rightarrow> Inr (bucket d css))"
  by (induction js arbitrary: d) (auto split: sum.splits)

lemma keys_update_with_aux:
  "map fst (AList.update_with_aux v k f ps) =
     (if k \<in> fst ` set ps then map fst ps else map fst ps @ [k])"
  by (induction ps) auto

lemma map_of_bucket:
  "map_of (bucket d css) k =
     (case map_of d k of
        None \<Rightarrow> (if k \<in> date ` set css then Some (filter (\<lambda>cs. date cs = k) css) else None)
      | Some l \<Rightarrow> Some (l @ filter (\<lambda>cs. date cs = k) css))"
proof (induction css arbitrary: d)
  case Nil
  then show ?case by (simp split: option.splits)
next
  case (Cons cs css)
  show ?case
    by (simp add: Cons.IH AList.map_of_update_with_aux split: option.splits)
qed

lemma distinct_bucket: "distinct (map fst (bucket d css)) = distinct (map fst d)"
  by (induction css arbitrary: d) auto

lemma set_keys_bucket: "fst ` set (bucket d css) = fst ` set d \<union> date ` set css"
  by (induction css arbitrary: d) (auto simp: AList.dom_update_with_aux)

lemma sorted_keys_bucket:
  "sorted_wrt (<) (map fst d) \<Longrightarrow> sorted (map date css) \<Longrightarrow>
   (\<forall>k \<in> fst ` set d. \<forall>cs \<in> set css. k \<le> date cs) \<Longrightarrow>
   sorted_wrt (<) (map fst (bucket d css))"
proof (induction css arbitrary: d)
  case Nil
  then show ?case by simp
next
  case (Cons cs css)
  let ?d = "AList.update_with_aux [] (date cs) (\<lambda>l. l @ [cs]) d"
  have 1: "sorted_wrt (<) (map fst ?d)"
  proof (cases "date cs \<in> fst ` set d")
    case True
    then show ?thesis using Cons.prems(1) by (simp add: keys_update_with_aux)
  next
    case False
    have "\<forall>k \<in> fst ` set d. k < date cs"
    proof
      fix k assume k: "k \<in> fst ` set d"
      then have "k \<le> date cs" using Cons.prems(3) by (meson list.set_intros(1))
      moreover have "k \<noteq> date cs" using k False by blast
      ultimately show "k < date cs" by (rule le_neq_trans)
    qed
    then have "\<forall>k \<in> set (map fst d). k < date cs" by simp
    with False show ?thesis using Cons.prems(1)
      by (simp only: keys_update_with_aux if_False sorted_wrt_append) simp
  qed
  have 2: "sorted (map date css)" using Cons.prems(2) by simp
  have 3: "\<forall>k \<in> fst ` set ?d. \<forall>c \<in> set css. k \<le> date c"
    using Cons.prems(2,3) by (auto simp: AList.dom_update_with_aux)
  show ?case using Cons.IH[OF 1 2 3] by simp
qed


lemma distinct_fill_blanks: "distinct (map fst (fill_blanks d dt l)) = distinct (map fst d)"
proof (induction d dt l rule: fill_blanks.induct)
  case (1 d dt l)
  then show ?case by (subst fill_blanks.simps) simp
qed

lemma keys_fill_blanks:
  "snd dt = snd l \<Longrightarrow>
   fst ` set (fill_blanks d dt l) = fst ` set d \<union> (\<lambda>i. (i, snd l)) ` {fst dt ..< fst l}"
proof (induction d dt l rule: fill_blanks.induct)
  case (1 d dt l)
  show ?case
  proof (cases "dt < l")
    case True
    then have lt: "fst dt < fst l" using "1.prems" by (simp add: less_prod_def)
    have s: "snd (add_days dt 1) = snd l" using "1.prems" by (simp add: add_days_def)
    have dt: "dt = (fst dt, snd l)" using "1.prems" by (metis prod.collapse)
    have "{fst dt ..< fst l} = insert (fst dt) {fst dt + 1 ..< fst l}" using lt by auto
    then have "(\<lambda>i. (i, snd l)) ` {fst dt ..< fst l}
                 = insert dt ((\<lambda>i. (i, snd l)) ` {fst dt + 1 ..< fst l})"
      using dt by (metis image_insert)
    then show ?thesis
      using "1.IH"[OF True s] True
      by (subst fill_blanks.simps) (simp add: AList.dom_update_with_aux add_days_def)
  next
    case False
    then have "\<not> fst dt < fst l" using "1.prems" by (simp add: less_prod_def)
    with False show ?thesis by (subst fill_blanks.simps) simp
  qed
qed

lemma map_of_fill_blanks_Some:
  "map_of d k = Some v \<Longrightarrow> map_of (fill_blanks d dt l) k = Some v"
proof (induction d dt l rule: fill_blanks.induct)
  case (1 d dt l)
  show ?case
  proof (cases "dt < l")
    case True
    have "map_of (AList.update_with_aux [] dt (\<lambda>l. l) d) k = Some v"
      using "1.prems" by (auto simp add: AList.map_of_update_with_aux)
    from "1.IH"[OF True this] True show ?thesis by (subst fill_blanks.simps) simp
  next
    case False
    with "1.prems" show ?thesis by (subst fill_blanks.simps) simp
  qed
qed

lemma map_of_fill_blanks_None:
  "map_of d k = None \<Longrightarrow>
   map_of (fill_blanks d dt l) k = (if k \<in> fst ` set (fill_blanks d dt l) then Some [] else None)"
proof (induction d dt l rule: fill_blanks.induct)
  case (1 d dt l)
  let ?d = "AList.update_with_aux [] dt (\<lambda>l. l) d"
  show ?case
  proof (cases "dt < l")
    case True
    note step = fill_blanks.simps[of d dt l]
    show ?thesis
    proof (cases "k = dt")
      case True
      then have m: "map_of ?d k = Some []"
        using "1.prems" by (simp add: AList.map_of_update_with_aux)
      then have "map_of (fill_blanks ?d (add_days dt 1) l) k = Some []"
        by (rule map_of_fill_blanks_Some)
      moreover from this have "k \<in> fst ` set (fill_blanks ?d (add_days dt 1) l)"
        by (metis domI dom_map_of_conv_image_fst)
      ultimately show ?thesis using \<open>dt < l\<close> by (simp add: step)
    next
      case False
      then have "map_of ?d k = None"
        using "1.prems" by (simp add: AList.map_of_update_with_aux)
      from "1.IH"[OF True this] True show ?thesis by (simp add: step)
    qed
  next
    case False
    with "1.prems" show ?thesis
      by (subst (1 2) fill_blanks.simps) (simp add: map_of_eq_None_iff)
  qed
qed

lemma keys_sort_dict: "map fst (sort_dict d) = sort (map fst d)"
  by (simp add: sort_dict_def comp_def)

lemma map_of_sort_dict:
  "k \<in> fst ` set d \<Longrightarrow> map_of (sort_dict d) k = map_of d k"
proof -
  assume k: "k \<in> fst ` set d"
  then obtain v where v: "map_of d k = Some v"
    by (metis domD dom_map_of_conv_image_fst)
  have "map_of (sort_dict d) = (Some \<circ> (\<lambda>k. the (map_of d k))) |` set (sort (map fst d))"
    unfolding sort_dict_def by (rule map_of_map_restrict)
  with k v show ?thesis by (simp add: restrict_map_def)
qed

lemma sort_keys_interval:
  fixes ks :: "datetime list"
  assumes "distinct ks" "set ks = (\<lambda>i. (i, t)) ` {a .. b}"
  shows "sort ks = map (\<lambda>i. (i, t)) [a .. b]"
proof (rule sorted_distinct_set_unique)
  show "sorted (sort ks)" by simp
  show "distinct (sort ks)" using assms(1) by simp
  show "sorted (map (\<lambda>i. (i, t)) [a .. b])"
    by (rule sorted_wrt_map_mono[where R = "(\<le>)", OF sorted_upto]) simp
  show "distinct (map (\<lambda>i. (i, t)) [a .. b])" by (simp add: distinct_map inj_on_def)
  show "set (sort ks) = set (map (\<lambda>i. (i, t)) [a .. b])" using assms(2) by simp
qed


lemma load_change_sets_dates:
  "load_change_sets js = Inr css \<Longrightarrow> map date css = map (\<lambda>j. max_of_day (j_date j)) js"
proof (induction js arbitrary: css)
  case Nil
  then show ?case by simp
next
  case (Cons j js)
  then show ?case
    by (auto simp: load_change_set_def ChangeSet_init_def split: sum.splits if_splits)
qed

lemma sorted_hd_least: "sorted xs \<Longrightarrow> x \<in> set xs \<Longrightarrow> hd xs \<le> (x::'a::linorder)"
  by (cases xs) auto

lemma sorted_last_greatest: "sorted xs \<Longrightarrow> x \<in> set xs \<Longrightarrow> (x::'a::linorder) \<le> last xs"
  by (induction xs) (auto split: if_splits)

lemma sorted_same_set_ends:
  fixes xs ys :: "'a::linorder list"
  assumes "sorted xs" "sorted ys" "set xs = set ys" "xs \<noteq> []"
  shows "hd xs = hd ys" and "last xs = last ys"
proof -
  from assms have ys: "ys \<noteq> []" by auto
  have "hd xs \<le> hd ys" using assms ys by (metis sorted_hd_least hd_in_set)
  moreover have "hd ys \<le> hd xs" using assms ys by (metis sorted_hd_least hd_in_set)
  ultimately show "hd xs = hd ys" by simp
  have "last xs \<le> last ys" using assms ys by (metis sorted_last_greatest last_in_set)
  moreover have "last ys \<le> last xs" using assms ys by (metis sorted_last_greatest last_in_set)
  ultimately show "last xs = last ys" by simp
qed

lemma generate_chronological:
  assumes ne: "js \<noteq> []"
    and load: "load_change_sets js = Inr css"
    and chrono: "sorted (map (\<lambda>j. fst (j_date j)) js)"
  shows "generate_date_to_change_sets js =
           Inr (day_buckets css (fst (j_date (hd js))) (fst (j_date (last js))))"
proof -
  define a where "a = fst (j_date (hd js))"
  define b where "b = fst (j_date (last js))"
  define d where "d = bucket [] css"
  define K where "K = map fst d"
  define D where "D = map date css"
  have D: "D = map (\<lambda>j. (fst (j_date j), time_max)) js"
    unfolding D_def using load_change_sets_dates[OF load] by (simp add: max_of_day_def)
  have Dne: "D \<noteq> []" using ne D by simp
  have chrono': "sorted_wrt (\<lambda>x y. fst (j_date x) \<le> fst (j_date y)) js"
    using chrono by (simp add: sorted_map)
  have sD: "sorted D"
    unfolding D sorted_map by (rule sorted_wrt_mono_rel[OF _ chrono']) simp
  have hdD: "hd D = (a, time_max)" using ne by (simp add: D a_def hd_map)
  have lastD: "last D = (b, time_max)" using ne by (simp add: D b_def last_map)
  have setK: "set K = set D"
    unfolding K_def D_def d_def using set_keys_bucket[of "[]" css] by simp
  have sK: "sorted_wrt (<) K"
    unfolding K_def d_def using sD[unfolded D_def] by (intro sorted_keys_bucket) simp_all
  then have sK': "sorted K" and dK: "distinct K" by (simp_all add: strict_sorted_iff)
  have Kne: "K \<noteq> []" using setK Dne by auto
  have hdK: "hd K = (a, time_max)" using sorted_same_set_ends(1)[OF sK' sD setK Kne] hdD by simp
  have lastK: "last K = (b, time_max)"
    using sorted_same_set_ends(2)[OF sK' sD setK Kne] lastD by simp
  have grp: "group_by_date [] js = Inr d"
    by (simp add: group_by_date_bucket load d_def)
  define d' where "d' = fill_blanks d (a, time_max) (b, time_max)"
  have gen: "generate_date_to_change_sets js = Inr (sort_dict d')"
    using Kne hdK lastK
    by (simp add: generate_date_to_change_sets_def grp Let_def d'_def K_def)
  have Ksub: "set K \<subseteq> (\<lambda>i. (i, time_max)) ` {a .. b}"
  proof
    fix k assume k: "k \<in> set K"
    then have kD: "k \<in> set D" using setK by simp
    then have s: "snd k = time_max" unfolding D by auto
    have "hd D \<le> k" using sD kD by (rule sorted_hd_least)
    then have 1: "a \<le> fst k" using hdD by (auto simp add: less_eq_prod_def)
    have "k \<le> last D" using sD kD by (rule sorted_last_greatest)
    then have 2: "fst k \<le> b" using lastD by (auto simp add: less_eq_prod_def)
    from 1 2 s show "k \<in> (\<lambda>i. (i, time_max)) ` {a .. b}"
      by (metis atLeastAtMost_iff image_eqI prod.collapse)
  qed
  have bK: "(b, time_max) \<in> set K" using lastK Kne by (metis last_in_set)
  have aK: "(a, time_max) \<in> set K" using hdK Kne by (metis hd_in_set)
  have ab: "a \<le> b" using sorted_hd_least[OF sK' bK] hdK by (auto simp add: less_eq_prod_def)
  have keys': "fst ` set d' = (\<lambda>i. (i, time_max)) ` {a .. b}"
  proof -
    have "fst ` set d' = set K \<union> (\<lambda>i. (i, time_max)) ` {a ..< b}"
      unfolding d'_def K_def by (simp add: keys_fill_blanks)
    moreover have "{a .. b} = insert b {a ..< b}" using ab by auto
    ultimately show ?thesis using Ksub bK by auto
  qed
  have dist': "distinct (map fst d')"
    unfolding d'_def using dK by (simp add: distinct_fill_blanks K_def)
  have sortk: "sort (map fst d') = map (\<lambda>i. (i, time_max)) [a .. b]"
    using dist' keys' by (intro sort_keys_interval) simp_all
  have val: "the (map_of d' k) = filter (\<lambda>cs. date cs = k) css" if "k \<in> fst ` set d'" for k
  proof (cases "k \<in> date ` set css")
    case True
    then have "map_of d k = Some (filter (\<lambda>cs. date cs = k) css)"
      unfolding d_def by (simp add: map_of_bucket)
    then show ?thesis unfolding d'_def by (simp add: map_of_fill_blanks_Some)
  next
    case False
    then have "map_of d k = None" unfolding d_def by (simp add: map_of_bucket)
    then have "map_of d' k = Some []"
      unfolding d'_def using that[unfolded d'_def] by (simp add: map_of_fill_blanks_None)
    moreover have "filter (\<lambda>cs. date cs = k) css = []" using False by (auto simp: filter_empty_conv)
    ultimately show ?thesis by simp
  qed
  have "sort_dict d' = day_buckets css a b"
    unfolding sort_dict_def day_buckets_def sortk using val keys' by (auto simp: comp_def)
  with gen show ?thesis unfolding a_def b_def by simp
qed

subsection \<open>Sliding over a contiguous timeline\<close>

lemma keys_day_buckets: "map fst (day_buckets css a b) = map (\<lambda>i. (i, time_max)) [a .. b]"
  by (simp add: day_buckets_def comp_def)

lemma length_day_buckets: "int (length (day_buckets css a b)) = (if a \<le> b then b - a + 1 else 0)"
  by (simp add: day_buckets_def)

lemma mem_keys_day_buckets:
  "(i, t) \<in> fst ` set (day_buckets css a b) \<longleftrightarrow> a \<le> i \<and> i \<le> b \<and> t = time_max"
proof -
  have "fst ` set (day_buckets css a b) = set (map fst (day_buckets css a b))"
    by simp
  also have "\<dots> = (\<lambda>i. (i, time_max)) ` {a .. b}"
    unfolding keys_day_buckets by simp
  finally show ?thesis by auto
qed

lemma map_of_day_list:
  "map_of (map (\<lambda>i. ((i, t), f i)) xs) (j, s) = (if j \<in> set xs \<and> s = t then Some (f j) else None)"
  by (induction xs) auto

lemma map_of_day_buckets:
  "map_of (day_buckets css a b) (i, t) =
     (if a \<le> i \<and> i \<le> b \<and> t = time_max
      then Some (filter (\<lambda>cs. date cs = (i, time_max)) css) else None)"
  unfolding day_buckets_def map_of_day_list by simp

lemma forward_one_day_buckets:
  assumes tl: "date_to_change_sets dm = day_buckets css a b"
    and f: "first_date dm = Some (x, time_max)"
    and l: "last_date dm = Some (y, time_max)"
    and x: "a \<le> x" "x \<le> b" and y: "a \<le> y + 1"
  shows "forward_one_day dm =
           (if y + 1 \<le> b
            then Inr ((filter (\<lambda>cs. date cs = (y + 1, time_max)) css,
                       filter (\<lambda>cs. date cs = (x, time_max)) css),
                      dm\<lparr>first_date := Some (x + 1, time_max),
                         last_date := Some (y + 1, time_max)\<rparr>)
            else Inl SlidingNotPossible)"
  using x y
  by (simp add: forward_one_day_def can_slide_def tl f l add_days_def
      mem_keys_day_buckets map_of_day_buckets)

lemma forward_days_buckets:
  assumes "date_to_change_sets dm = day_buckets css a b"
    and "first_date dm = Some (x, time_max)"
    and "last_date dm = Some (y, time_max)"
    and "a \<le> x" "x \<le> y" "y + int n \<le> b"
  shows "forward_days n dm =
           Inr (dm\<lparr>first_date := Some (x + int n, time_max),
                   last_date := Some (y + int n, time_max)\<rparr>)"
  using assms
proof (induction n arbitrary: dm x y)
  case 0
  then show ?case by simp
next
  case (Suc n)
  let ?dm = "dm\<lparr>first_date := Some (x + 1, time_max), last_date := Some (y + 1, time_max)\<rparr>"
  have step: "forward_one_day dm =
      Inr ((filter (\<lambda>cs. date cs = (y + 1, time_max)) css,
            filter (\<lambda>cs. date cs = (x, time_max)) css), ?dm)"
    using Suc.prems by (subst forward_one_day_buckets[where css = css and a = a and b = b and x = x and y = y]) auto
  have "forward_days n ?dm =
      Inr (?dm\<lparr>first_date := Some (x + 1 + int n, time_max),
                last_date := Some (y + 1 + int n, time_max)\<rparr>)"
    using Suc.prems by (intro Suc.IH) auto
  then show ?case by (simp add: step add.assoc add.commute)
qed

lemma get_initial_window_buckets:
  assumes "date_to_change_sets dm = day_buckets css a b" "sliding_window_size dm = w"
    and "1 \<le> w" "a + w - 1 \<le> b"
  shows "\<exists>win. get_initial_window dm =
           Inr (win, dm\<lparr>first_date := Some (a, time_max),
                         last_date := Some (a + w - 1, time_max)\<rparr>)"
proof -
  have ab: "a \<le> b" using assms by simp
  then have "[a .. b] = a # [a + 1 .. b]" by (simp add: upto_rec1)
  then obtain v rest where tl: "day_buckets css a b = ((a, time_max), v) # rest"
    by (simp add: day_buckets_def)
  have "(a + (w - 1), time_max) \<in> fst ` set (day_buckets css a b)"
    unfolding mem_keys_day_buckets using assms by simp
  then show ?thesis
    using assms(1,2) tl
    by (simp add: get_initial_window_def add_days_def Let_def algebra_simps)
qed


lemma chronological_ends:
  assumes "sorted (map (\<lambda>j. fst (j_date j)) js)" "j \<in> set js"
  shows "fst (j_date (hd js)) \<le> fst (j_date j)" and "fst (j_date j) \<le> fst (j_date (last js))"
proof -
  from assms(2) have ne: "js \<noteq> []" by auto
  have m: "fst (j_date j) \<in> set (map (\<lambda>j. fst (j_date j)) js)" using assms(2) by simp
  show "fst (j_date (hd js)) \<le> fst (j_date j)"
    using sorted_hd_least[OF assms(1) m] ne by (simp add: hd_map)
  show "fst (j_date j) \<le> fst (j_date (last js))"
    using sorted_last_greatest[OF assms(1) m] ne by (simp add: last_map)
qed

subsection \<open>Claim C2: the timeline built at construction\<close>

text \<open>
  Claim C2 (as amended). For every non-empty dataset whose entries are well formed and
  listed in chronological order (non-decreasing calendar day), the constructor returns a
  timeline whose keys are exactly the calendar days from the day of the first entry to
  the day of the last entry, which are the earliest and the latest observed day: one key
  per day, at the last instant of the day, ascending and one day apart. Every key maps
  to the change sets of that calendar day in input order, the empty list for a day
  without commits.
\<close>

theorem timeline_of_chronological_dataset:
  assumes "js \<noteq> []"
    and "load_change_sets js = Inr css"
    and "sorted (map (\<lambda>j. fst (j_date j)) js)"
  shows "\<exists>tl. generate_date_to_change_sets js = Inr tl
          \<and> map fst tl = map (\<lambda>i. (i, time_max)) [fst (j_date (hd js)) .. fst (j_date (last js))]
          \<and> (\<forall>j \<in> set js. fst (j_date (hd js)) \<le> fst (j_date j)
                           \<and> fst (j_date j) \<le> fst (j_date (last js)))
          \<and> (\<forall>k \<in> set (map fst tl). map_of tl k = Some (filter (\<lambda>cs. date cs = k) css))"
proof -
  let ?a = "fst (j_date (hd js))" and ?b = "fst (j_date (last js))"
  have gen: "generate_date_to_change_sets js = Inr (day_buckets css ?a ?b)"
    using assms by (rule generate_chronological)
  have "\<forall>k \<in> set (map fst (day_buckets css ?a ?b)).
          map_of (day_buckets css ?a ?b) k = Some (filter (\<lambda>cs. date cs = k) css)"
    unfolding keys_day_buckets by (auto simp: map_of_day_buckets)
  moreover have "\<forall>j \<in> set js. ?a \<le> fst (j_date j) \<and> fst (j_date j) \<le> ?b"
    using chronological_ends[OF assms(3)] by blast
  ultimately show ?thesis using gen keys_day_buckets by blast
qed

text \<open>The theorem at the dataset with commits on the days 1 and 3: day 2 is filled in.\<close>

theorem timeline_of_chronological_dataset_witness:
  "\<exists>tl. generate_date_to_change_sets ordered_dataset = Inr tl
          \<and> map fst tl = [(1, time_max), (2, time_max), (3, time_max)]"
proof -
  have 1: "ordered_dataset \<noteq> []" by (simp add: ordered_dataset_def)
  have 2: "load_change_sets ordered_dataset =
             Inr [\<lparr>commit_hash = ''c1'', author = ''d1'', date = (1, time_max), issues = [],
                    code_changes = [\<lparr>file_path = ''F1'', change_type = ''ADD'',
                                     old_file_path = None\<rparr>],
                    num_files_in_project = 1\<rparr>,
                  \<lparr>commit_hash = ''c2'', author = ''d2'', date = (3, time_max), issues = [],
                    code_changes = [\<lparr>file_path = ''F2'', change_type = ''ADD'',
                                     old_file_path = None\<rparr>],
                    num_files_in_project = 2\<rparr>]"
    by (simp add: ordered_dataset_def entry_def load_change_set_def CodeChange_init_def
        ChangeSet_init_def max_of_day_def)
  have 3: "sorted (map (\<lambda>j. fst (j_date j)) ordered_dataset)"
    by (simp add: ordered_dataset_def entry_def)
  have 4: "[fst (j_date (hd ordered_dataset)) .. fst (j_date (last ordered_dataset))] = [1, 2, 3]"
    by (simp add: ordered_dataset_def entry_def upto_rec1)
  show ?thesis
    using timeline_of_chronological_dataset[OF 1 2 3] unfolding 4 by auto
qed

text \<open>
  Claim C2 as stated also covers datasets that are not in chronological order. The
  blanks are filled from the first key inserted to the last key inserted, so for the
  commits listed on the days 2, 4, 1 nothing is filled and day 3 is missing.
\<close>

theorem timeline_of_unordered_dataset_counterexample:
  "map_sum id (map fst) (generate_date_to_change_sets unordered_dataset)
     = Inr [(1, time_max), (2, time_max), (4, time_max)]"
  by code_simp

subsection \<open>Claim C3: the number of window positions\<close>

text \<open>
  Claim C3 (as amended). For every non-empty, well-formed dataset in chronological order
  that spans at least \<open>window_size_days\<close> days (with a window of at least one day),
  the constructor and \<open>get_initial_window\<close> succeed, the iteration count is the
  number of distinct bucketed dates minus the window size plus one, it is at least one,
  and from the initial window \<open>forward_one_day\<close> succeeds exactly the iteration
  count minus one times: that many calls in a row return, and the next one raises
  \<open>SlidingNotPossible\<close>.
\<close>

theorem iteration_count_chronological:
  assumes "js \<noteq> []"
    and "load_change_sets js = Inr css"
    and "sorted (map (\<lambda>j. fst (j_date j)) js)"
    and "1 \<le> w"
    and "w \<le> fst (j_date (last js)) - fst (j_date (hd js)) + 1"
  shows "\<exists>dm0 win dm dm'.
           DataManager_init js w = Inr dm0
         \<and> get_initial_window dm0 = Inr (win, dm)
         \<and> get_num_possible_iterations dm
             = int (card (fst ` set (date_to_change_sets dm))) - w + 1
         \<and> 1 \<le> get_num_possible_iterations dm
         \<and> forward_days (nat (get_num_possible_iterations dm - 1)) dm = Inr dm'
         \<and> forward_one_day dm' = Inl SlidingNotPossible"
proof -
  define a where "a = fst (j_date (hd js))"
  define b where "b = fst (j_date (last js))"
  define tl where "tl = day_buckets css a b"
  define dm0 where "dm0 = \<lparr>sliding_window_size = w, date_to_change_sets = tl,
                            first_date = None, last_date = None\<rparr>"
  define dm where "dm = dm0\<lparr>first_date := Some (a, time_max),
                            last_date := Some (a + w - 1, time_max)\<rparr>"
  define n where "n = nat (b - (a + w - 1))"
  define dm' where "dm' = dm\<lparr>first_date := Some (a + int n, time_max),
                            last_date := Some (a + w - 1 + int n, time_max)\<rparr>"
  have span: "a + w - 1 \<le> b" using assms(5) unfolding a_def b_def by simp
  have ab: "a \<le> b" using span assms(4) by simp
  have init: "DataManager_init js w = Inr dm0"
    using generate_chronological[OF assms(1-3)]
    by (simp add: DataManager_init_def dm0_def tl_def a_def b_def)
  have tl0: "date_to_change_sets dm0 = day_buckets css a b" "sliding_window_size dm0 = w"
    by (simp_all add: dm0_def tl_def)
  obtain win where win: "get_initial_window dm0 = Inr (win, dm)"
    using get_initial_window_buckets[OF tl0 assms(4) span] unfolding dm_def by blast
  have tl1: "date_to_change_sets dm = day_buckets css a b"
    and f1: "first_date dm = Some (a, time_max)"
    and l1: "last_date dm = Some (a + w - 1, time_max)"
    by (simp_all add: dm_def dm0_def tl_def)
  have len: "int (length (date_to_change_sets dm)) = b - a + 1"
    using ab by (simp add: tl1 length_day_buckets)
  have dist: "distinct (map fst (date_to_change_sets dm))"
    unfolding tl1 keys_day_buckets by (simp add: distinct_map inj_on_def)
  have card: "card (fst ` set (date_to_change_sets dm)) = length (date_to_change_sets dm)"
    using distinct_card[OF dist] by simp
  have sz: "sliding_window_size dm = w" by (simp add: dm_def dm0_def)
  have iters: "get_num_possible_iterations dm = b - a + 1 - w + 1"
    by (simp add: get_num_possible_iterations_def len sz)
  have n: "nat (get_num_possible_iterations dm - 1) = n"
    unfolding iters n_def by (simp add: algebra_simps)
  have nn: "int n = b - (a + w - 1)" using span by (simp add: n_def)
  have run: "forward_days n dm = Inr dm'"
    unfolding dm'_def
    using assms(4) nn by (intro forward_days_buckets[OF tl1 f1 l1]) auto
  have tl2: "date_to_change_sets dm' = day_buckets css a b"
    and f2: "first_date dm' = Some (a + int n, time_max)"
    and l2: "last_date dm' = Some (b, time_max)"
    using nn by (simp_all add: dm'_def tl1)
  have stop: "forward_one_day dm' = Inl SlidingNotPossible"
    using forward_one_day_buckets[OF tl2 f2 l2] nn assms(4) ab by simp
  have "get_num_possible_iterations dm
          = int (card (fst ` set (date_to_change_sets dm))) - w + 1"
    by (simp add: card get_num_possible_iterations_def sz)
  moreover have "1 \<le> get_num_possible_iterations dm" using iters span by simp
  ultimately show ?thesis using init win run stop n by metis
qed

text \<open>The theorem at the dataset with commits on the days 1 and 3 and a window of two days.\<close>

theorem iteration_count_chronological_witness:
  "\<exists>dm0 win dm dm'.
     DataManager_init ordered_dataset 2 = Inr dm0
   \<and> get_initial_window dm0 = Inr (win, dm)
   \<and> get_num_possible_iterations dm
       = int (card (fst ` set (date_to_change_sets dm))) - 2 + 1
   \<and> 1 \<le> get_num_possible_iterations dm
   \<and> forward_days (nat (get_num_possible_iterations dm - 1)) dm = Inr dm'
   \<and> forward_one_day dm' = Inl SlidingNotPossible"
proof -
  have 1: "ordered_dataset \<noteq> []" by (simp add: ordered_dataset_def)
  have 2: "load_change_sets ordered_dataset =
             Inr [\<lparr>commit_hash = ''c1'', author = ''d1'', date = (1, time_max), issues = [],
                    code_changes = [\<lparr>file_path = ''F1'', change_type = ''ADD'',
                                     old_file_path = None\<rparr>],
                    num_files_in_project = 1\<rparr>,
                  \<lparr>commit_hash = ''c2'', author = ''d2'', date = (3, time_max), issues = [],
                    code_changes = [\<lparr>file_path = ''F2'', change_type = ''ADD'',
                                     old_file_path = None\<rparr>],
                    num_files_in_project = 2\<rparr>]"
    by (simp add: ordered_dataset_def entry_def load_change_set_def CodeChange_init_def
        ChangeSet_init_def max_of_day_def)
  have 3: "sorted (map (\<lambda>j. fst (j_date j)) ordered_dataset)"
    by (simp add: ordered_dataset_def entry_def)
  have 4: "(1::int) \<le> 2" by simp
  have 5: "2 \<le> fst (j_date (last ordered_dataset)) - fst (j_date (hd ordered_dataset)) + 1"
    by (simp add: ordered_dataset_def entry_def)
  show ?thesis by (rule iteration_count_chronological[OF 1 2 3 4 5])
qed

text \<open>
  Claim C3 as stated takes every non-empty dataset that spans the window. For the
  commits listed on the days 2, 4, 1 and a window of two days the initial window is the
  days 1 and 2 and the iteration count is 2, yet the first call of
  \<open>forward_one_day\<close> already raises \<open>SlidingNotPossible\<close>, because day 3 is not a
  key of the timeline.
\<close>

theorem iteration_count_unordered_counterexample:
  "\<not> isl (initial_manager unordered_dataset 2)
   \<and> get_num_possible_iterations (projr (initial_manager unordered_dataset 2)) = 2
   \<and> forward_one_day (projr (initial_manager unordered_dataset 2)) = Inl SlidingNotPossible"
  by code_simp


section \<open>Properties of the graph operations\<close>

subsection \<open>Node sets and edge sets\<close>

lemma node_set_add_node [simp]: "node_set (add_node g n k) = insert n (node_set g)"
  by (simp add: node_set_def node_names_def add_node_def AList.dom_update)

lemma edge_set_add_node [simp]: "edge_set (add_node g n k) = edge_set g"
  by (simp add: edge_set_def add_node_def)

lemma node_set_add_nodes_from [simp]: "node_set (add_nodes_from g ns k) = node_set g \<union> set ns"
  unfolding add_nodes_from_def by (induction ns arbitrary: g) auto

lemma edge_set_add_nodes_from [simp]: "edge_set (add_nodes_from g ns k) = edge_set g"
  unfolding add_nodes_from_def by (induction ns arbitrary: g) auto

lemma node_set_add_edge [simp]: "node_set (add_edge g u v d k) = insert u (insert v (node_set g))"
  by (auto simp: node_set_def node_names_def add_edge_def AList.dom_update_with_aux)

lemma edge_key_cases:
  "edge_key es u v = None \<and> (u, v) \<notin> fst ` set es \<and> (v, u) \<notin> fst ` set es
   \<or> edge_key es u v = Some (u, v) \<and> (u, v) \<in> fst ` set es
   \<or> edge_key es u v = Some (v, u) \<and> (v, u) \<in> fst ` set es"
  by (simp add: edge_key_def)

lemma edge_set_add_edge [simp]: "edge_set (add_edge g u v d k) = insert {u, v} (edge_set g)"
proof -
  let ?key = "case edge_key (edges g) u v of None \<Rightarrow> (u, v) | Some key \<Rightarrow> key"
  have keys: "fst ` set (edges (add_edge g u v d k)) = insert ?key (fst ` set (edges g))"
    by (simp add: add_edge_def AList.dom_update_with_aux)
  have pair: "{fst ?key, snd ?key} = {u, v}"
    using edge_key_cases[of "edges g" u v] by auto
  have "edge_set (add_edge g u v d k) = (\<lambda>k. {fst k, snd k}) ` fst ` set (edges (add_edge g u v d k))"
    by (simp add: edge_set_def image_image)
  also have "\<dots> = insert {u, v} ((\<lambda>k. {fst k, snd k}) ` fst ` set (edges g))"
    unfolding keys using pair by simp
  finally show ?thesis by (simp add: edge_set_def image_image)
qed

lemma node_set_remove_node [simp]: "node_set (remove_node g n) = node_set g - {n}"
  by (auto simp: node_set_def node_names_def remove_node_def has_node_def AList.delete_eq)

lemma edge_set_remove_node:
  "closed_graph g \<Longrightarrow> edge_set (remove_node g n) = {e \<in> edge_set g. n \<notin> e}"
  by (auto simp: edge_set_def remove_node_def has_node_def node_set_def closed_graph_def)

lemma closed_remove_node: "closed_graph g \<Longrightarrow> closed_graph (remove_node g n)"
  unfolding closed_graph_def by (auto simp: edge_set_remove_node closed_graph_def)

lemma node_set_remove_nodes_from [simp]:
  "node_set (remove_nodes_from g ns) = node_set g - set ns"
  unfolding remove_nodes_from_def by (induction ns arbitrary: g) auto

lemma closed_remove_nodes_from: "closed_graph g \<Longrightarrow> closed_graph (remove_nodes_from g ns)"
  unfolding remove_nodes_from_def
  by (induction ns arbitrary: g) (simp_all add: closed_remove_node)

lemma edge_set_remove_nodes_from:
  "closed_graph g \<Longrightarrow> edge_set (remove_nodes_from g ns) = {e \<in> edge_set g. e \<inter> set ns = {}}"
  unfolding remove_nodes_from_def
proof (induction ns arbitrary: g)
  case Nil
  then show ?case by simp
next
  case (Cons n ns)
  have "edge_set (fold (\<lambda>n h. remove_node h n) ns (remove_node g n))
          = {e \<in> edge_set (remove_node g n). e \<inter> set ns = {}}"
    using Cons.prems by (intro Cons.IH closed_remove_node)
  also have "\<dots> = {e \<in> edge_set g. e \<inter> set (n # ns) = {}}"
    unfolding edge_set_remove_node[OF Cons.prems] by auto
  finally show ?case by simp
qed

lemma set_adjacency:
  "set (adjacency es n) = {(v, a). ((n, v), a) \<in> set es} \<union> {(u, a). ((u, n), a) \<in> set es}"
  by (induction es) (auto simp: adjacency_def split: if_splits)

lemma neighbors_empty_iff: "neighbors g n = [] \<longleftrightarrow> (\<forall>e \<in> edge_set g. n \<notin> e)"
proof -
  have "neighbors g n = [] \<longleftrightarrow> set (adjacency (edges g) n) = {}"
    by (simp add: neighbors_def)
  also have "\<dots> \<longleftrightarrow> (\<forall>e \<in> set (edges g). fst (fst e) \<noteq> n \<and> snd (fst e) \<noteq> n)"
    unfolding set_adjacency by fastforce
  also have "\<dots> \<longleftrightarrow> (\<forall>e \<in> edge_set g. n \<notin> e)"
    unfolding edge_set_def by auto
  finally show ?thesis .
qed

lemma set_isolates: "set (isolates g) = {n \<in> node_set g. \<forall>e \<in> edge_set g. n \<notin> e}"
  by (auto simp: isolates_def neighbors_empty_iff node_set_def)

lemma edge_set_remove_nodes:
  assumes "closed_graph g"
  shows "edge_set (remove_nodes g ns) = {e \<in> edge_set g. e \<inter> set ns = {}}"
proof (cases "ns = []")
  case True
  then show ?thesis by (simp add: remove_nodes_def)
next
  case False
  let ?g = "remove_nodes_from g ns"
  have 1: "edge_set ?g = {e \<in> edge_set g. e \<inter> set ns = {}}"
    using assms by (rule edge_set_remove_nodes_from)
  have 2: "closed_graph ?g" using assms by (rule closed_remove_nodes_from)
  have "edge_set (remove_nodes_from ?g (isolates ?g)) = {e \<in> edge_set ?g. e \<inter> set (isolates ?g) = {}}"
    using 2 by (rule edge_set_remove_nodes_from)
  also have "\<dots> = edge_set ?g" unfolding set_isolates by blast
  finally show ?thesis using False 1 by (simp add: remove_nodes_def Let_def)
qed

lemma closed_remove_nodes: "closed_graph g \<Longrightarrow> closed_graph (remove_nodes g ns)"
  by (simp add: remove_nodes_def Let_def closed_remove_nodes_from)

lemma node_set_remove_nodes:
  assumes "closed_graph g" "ns \<noteq> []"
  shows "node_set (remove_nodes g ns) = \<Union> (edge_set (remove_nodes g ns))"
proof -
  let ?g = "remove_nodes_from g ns"
  have 2: "closed_graph ?g" using assms(1) by (rule closed_remove_nodes_from)
  have e: "edge_set (remove_nodes g ns) = edge_set ?g"
    using edge_set_remove_nodes[OF assms(1), of ns] edge_set_remove_nodes_from[OF assms(1), of ns] by simp
  have "node_set (remove_nodes g ns) = node_set ?g - set (isolates ?g)"
    using assms(2) by (simp add: remove_nodes_def Let_def)
  also have "\<dots> = \<Union> (edge_set ?g)"
    unfolding set_isolates using 2[unfolded closed_graph_def] by blast
  finally show ?thesis using e by simp
qed

lemma pairs_of_simps [simp]:
  "pairs_of [] = {}"
  "pairs_of (x # xs) = insert {fst x, fst (snd x)} (pairs_of xs)"
  "pairs_of (xs @ ys) = pairs_of xs \<union> pairs_of ys"
  by (auto simp: pairs_of_def)

lemma pairs_of_adjacent:
  assumes "n \<notin> set seen"
  shows "pairs_of (map (\<lambda>(v, a). (n, v, a)) (filter (\<lambda>(v, a). v \<notin> set seen) (adjacency es n)))
     = {e \<in> (\<lambda>e. {fst (fst e), snd (fst e)}) ` set es. n \<in> e \<and> e \<inter> set seen = {}}"
  (is "?L = ?R")
proof
  show "?L \<subseteq> ?R"
  proof
    fix e assume "e \<in> ?L"
    then obtain v a where va: "(v, a) \<in> set (adjacency es n)" "v \<notin> set seen" "e = {n, v}"
      by (auto simp: pairs_of_def)
    from va(1) consider "((n, v), a) \<in> set es" | "((v, n), a) \<in> set es"
      by (auto simp: set_adjacency)
    then have "{n, v} \<in> (\<lambda>e. {fst (fst e), snd (fst e)}) ` set es"
    proof cases
      case 1
      then show ?thesis by (intro image_eqI[of _ _ "((n, v), a)"]) auto
    next
      case 2
      then show ?thesis by (intro image_eqI[of _ _ "((v, n), a)"]) auto
    qed
    with va assms show "e \<in> ?R" by auto
  qed
  show "?R \<subseteq> ?L"
  proof
    fix e assume "e \<in> ?R"
    then obtain x where x: "x \<in> set es" "e = {fst (fst x), snd (fst x)}" "n \<in> e" "e \<inter> set seen = {}"
      by auto
    obtain u v a where xe: "x = ((u, v), a)" by (metis prod.collapse)
    from x(3) xe x(2) consider "u = n" | "v = n" by auto
    then show "e \<in> ?L"
    proof cases
      case 1
      then have "(v, a) \<in> set (adjacency es n)" using x(1) xe by (simp add: set_adjacency)
      moreover have "v \<notin> set seen" using x(4) x(2) xe by auto
      ultimately have "(n, v, a) \<in> set (map (\<lambda>(v, a). (n, v, a)) (filter (\<lambda>(v, a). v \<notin> set seen) (adjacency es n)))"
        by (auto simp: image_iff)
      then have "{n, v} \<in> ?L" unfolding pairs_of_def by (rule image_eqI[rotated]) simp
      then show ?thesis using x(2) xe 1 by simp
    next
      case 2
      then have "(u, a) \<in> set (adjacency es n)" using x(1) xe by (simp add: set_adjacency)
      moreover have "u \<notin> set seen" using x(4) x(2) xe by auto
      ultimately have "(n, u, a) \<in> set (map (\<lambda>(v, a). (n, v, a)) (filter (\<lambda>(v, a). v \<notin> set seen) (adjacency es n)))"
        by (auto simp: image_iff)
      then have "{n, u} \<in> ?L" unfolding pairs_of_def by (rule image_eqI[rotated]) simp
      then show ?thesis using x(2) xe 2 by (simp add: insert_commute)
    qed
  qed
qed

lemma edges_iter_pairs:
  "distinct ns \<Longrightarrow> set ns \<inter> set seen = {} \<Longrightarrow>
   pairs_of (edges_iter es seen ns) =
     {e \<in> (\<lambda>e. {fst (fst e), snd (fst e)}) ` set es. e \<inter> set ns \<noteq> {} \<and> e \<inter> set seen = {}}"
proof (induction ns arbitrary: seen)
  case Nil
  then show ?case by simp
next
  case (Cons n ns)
  let ?P = "(\<lambda>e. {fst (fst e), snd (fst e)}) ` set es"
  have n: "n \<notin> set seen" "n \<notin> set ns" using Cons.prems by auto
  have IH: "pairs_of (edges_iter es (n # seen) ns)
              = {e \<in> ?P. e \<inter> set ns \<noteq> {} \<and> e \<inter> set (n # seen) = {}}"
    using Cons.prems by (intro Cons.IH) auto
  have "pairs_of (edges_iter es seen (n # ns))
          = {e \<in> ?P. n \<in> e \<and> e \<inter> set seen = {}}
            \<union> {e \<in> ?P. e \<inter> set ns \<noteq> {} \<and> e \<inter> set (n # seen) = {}}"
    using pairs_of_adjacent[OF n(1), of es] IH by simp
  also have "\<dots> = {e \<in> ?P. e \<inter> set (n # ns) \<noteq> {} \<and> e \<inter> set seen = {}}"
    by auto
  finally show ?case .
qed

lemma pairs_of_graph_edges:
  assumes "distinct (node_names g)" "closed_graph g"
  shows "pairs_of (graph_edges g) = edge_set g"
proof -
  have "pairs_of (graph_edges g) = {e \<in> edge_set g. e \<inter> node_set g \<noteq> {}}"
    unfolding graph_edges_def using edges_iter_pairs[OF assms(1), of "[]" "edges g"]
    by (simp add: edge_set_def node_set_def)
  also have "\<dots> = edge_set g"
    using assms(2) by (auto simp: edge_set_def closed_graph_def)
  finally show ?thesis .
qed

lemma node_set_fold_add_edge:
  "node_set (fold (\<lambda>t h. add_edge h (f (fst t)) (f (fst (snd t))) (d t) (k t)) l h)
     = node_set h \<union> f ` \<Union> (pairs_of l)"
  by (induction l arbitrary: h) auto

lemma edge_set_fold_add_edge:
  "edge_set (fold (\<lambda>t h. add_edge h (f (fst t)) (f (fst (snd t))) (d t) (k t)) l h)
     = edge_set h \<union> (\<lambda>e. f ` e) ` pairs_of l"
  by (induction l arbitrary: h) auto

lemma keys_fold_update:
  "fst ` set (fold (\<lambda>p ns. AList.update (f (fst p)) (snd p) ns) l acc) = fst ` set acc \<union> f ` fst ` set l"
  by (induction l arbitrary: acc) (auto simp: AList.dom_update)

lemma relabel_nodes_alt:
  "relabel_nodes g m =
     fold (\<lambda>t h. add_edge h (mapping_get m (fst t)) (mapping_get m (fst (snd t)))
                    (e_date (snd (snd t))) (e_kind (snd (snd t))))
          (graph_edges g)
          \<lparr>nodes = fold (\<lambda>p ns. AList.update (mapping_get m (fst p)) (snd p) ns) (nodes g) [],
           edges = []\<rparr>"
  by (simp add: relabel_nodes_def case_prod_unfold)

lemma edge_set_relabel_nodes:
  assumes "distinct (node_names g)" "closed_graph g"
  shows "edge_set (relabel_nodes g m) = (\<lambda>e. mapping_get m ` e) ` edge_set g"
proof -
  have "edge_set (relabel_nodes g m) = (\<lambda>e. mapping_get m ` e) ` pairs_of (graph_edges g)"
    unfolding relabel_nodes_alt
    by (subst edge_set_fold_add_edge[where f = "mapping_get m"]) (simp add: edge_set_def)
  then show ?thesis by (simp add: pairs_of_graph_edges[OF assms])
qed

lemma node_set_relabel_nodes:
  assumes "distinct (node_names g)" "closed_graph g"
  shows "node_set (relabel_nodes g m) = mapping_get m ` node_set g"
proof -
  have "node_set (relabel_nodes g m)
          = mapping_get m ` node_set g \<union> mapping_get m ` \<Union> (pairs_of (graph_edges g))"
    unfolding relabel_nodes_alt
    by (subst node_set_fold_add_edge[where f = "mapping_get m"])
       (simp add: node_set_def node_names_def keys_fold_update)
  also have "\<dots> = mapping_get m ` node_set g"
    unfolding pairs_of_graph_edges[OF assms] using assms(2) by (auto simp: closed_graph_def)
  finally show ?thesis .
qed

lemma closed_add_node: "closed_graph g \<Longrightarrow> closed_graph (add_node g n k)"
  by (auto simp: closed_graph_def)

lemma closed_add_nodes_from: "closed_graph g \<Longrightarrow> closed_graph (add_nodes_from g ns k)"
  by (auto simp: closed_graph_def)

lemma closed_add_edge: "closed_graph g \<Longrightarrow> closed_graph (add_edge g u v d k)"
  by (auto simp: closed_graph_def)

lemma closed_fold_add_edge:
  "closed_graph h \<Longrightarrow> closed_graph (fold (\<lambda>t h. add_edge h (f1 t) (f2 t) (d t) (k t)) l h)"
  by (induction l arbitrary: h) (simp_all add: closed_add_edge)

lemma closed_relabel_nodes: "closed_graph (relabel_nodes g m)"
  unfolding relabel_nodes_alt
  by (rule closed_fold_add_edge) (simp add: closed_graph_def edge_set_def)

lemma distinct_add_node: "distinct (node_names g) \<Longrightarrow> distinct (node_names (add_node g n k))"
  by (simp add: node_names_def add_node_def AList.distinct_update)

lemma distinct_add_nodes_from:
  "distinct (node_names g) \<Longrightarrow> distinct (node_names (add_nodes_from g ns k))"
  unfolding add_nodes_from_def by (induction ns arbitrary: g) (simp_all add: distinct_add_node)

lemma distinct_add_edge: "distinct (node_names g) \<Longrightarrow> distinct (node_names (add_edge g u v d k))"
  by (simp add: node_names_def add_edge_def)

lemma distinct_fold_add_edge:
  "distinct (node_names h) \<Longrightarrow>
   distinct (node_names (fold (\<lambda>t h. add_edge h (f1 t) (f2 t) (d t) (k t)) l h))"
  by (induction l arbitrary: h) (simp_all add: distinct_add_edge)

lemma distinct_fold_update:
  "distinct (map fst acc) \<Longrightarrow>
   distinct (map fst (fold (\<lambda>p ns. AList.update (f (fst p)) (snd p) ns) l acc))"
  by (induction l arbitrary: acc) (simp_all add: AList.distinct_update)

lemma distinct_relabel_nodes: "distinct (node_names (relabel_nodes g m))"
  unfolding relabel_nodes_alt
  by (rule distinct_fold_add_edge) (simp add: node_names_def distinct_fold_update)

lemma distinct_remove_node: "distinct (node_names g) \<Longrightarrow> distinct (node_names (remove_node g n))"
  by (simp add: node_names_def remove_node_def AList.distinct_delete)

lemma distinct_remove_nodes_from:
  "distinct (node_names g) \<Longrightarrow> distinct (node_names (remove_nodes_from g ns))"
  unfolding remove_nodes_from_def by (induction ns arbitrary: g) (simp_all add: distinct_remove_node)

lemma distinct_remove_nodes:
  "distinct (node_names g) \<Longrightarrow> distinct (node_names (remove_nodes g ns))"
  by (simp add: remove_nodes_def Let_def distinct_remove_nodes_from)

lemma mapping_get_Nil [simp]: "mapping_get [] n = n"
  by (simp add: mapping_get_def)

lemma tidy_closed: "tidy_graph g \<Longrightarrow> closed_graph g"
  by (auto simp: tidy_graph_def closed_graph_def)

lemma tidy_empty: "tidy_graph empty_graph"
  by (simp add: tidy_graph_def empty_graph_def node_names_def node_set_def edge_set_def)

lemma edge_set_rename_nodes:
  "tidy_graph g \<Longrightarrow> edge_set (rename_nodes g m) = (\<lambda>e. mapping_get m ` e) ` edge_set g"
  by (cases "m = []")
     (simp_all add: rename_nodes_def edge_set_relabel_nodes tidy_closed tidy_graph_def)

lemma tidy_rename_nodes: "tidy_graph g \<Longrightarrow> tidy_graph (rename_nodes g m)"
proof (cases "m = []")
  case True
  then show "tidy_graph g \<Longrightarrow> ?thesis" by (simp add: rename_nodes_def)
next
  case False
  assume t: "tidy_graph g"
  then have d: "distinct (node_names g)" and c: "closed_graph g"
    by (simp_all add: tidy_graph_def tidy_closed)
  have "node_set (relabel_nodes g m) = \<Union> (edge_set (relabel_nodes g m))"
    unfolding node_set_relabel_nodes[OF d c] edge_set_relabel_nodes[OF d c]
    using t by (auto simp: tidy_graph_def)
  then show ?thesis using False by (simp add: rename_nodes_def tidy_graph_def distinct_relabel_nodes)
qed

lemma tidy_remove_nodes: "tidy_graph g \<Longrightarrow> tidy_graph (remove_nodes g ns)"
proof (cases "ns = []")
  case True
  then show "tidy_graph g \<Longrightarrow> ?thesis" by (simp add: remove_nodes_def)
next
  case False
  assume t: "tidy_graph g"
  then show ?thesis
    using node_set_remove_nodes[OF tidy_closed[OF t] False]
    by (simp add: tidy_graph_def distinct_remove_nodes)
qed

lemma node_set_fold_add_edge_from:
  "node_set (fold (\<lambda>x h. add_edge h u x d k) xs g) = node_set g \<union> (if xs = [] then {} else {u}) \<union> set xs"
  by (induction xs arbitrary: g) auto

lemma edge_set_fold_add_edge_from:
  "edge_set (fold (\<lambda>x h. add_edge h u x d k) xs g) = edge_set g \<union> (\<lambda>x. {u, x}) ` set xs"
  by (induction xs arbitrary: g) auto

lemma distinct_fold_add_edge_from:
  "distinct (node_names g) \<Longrightarrow> distinct (node_names (fold (\<lambda>x h. add_edge h u x d k) xs g))"
  by (induction xs arbitrary: g) (simp_all add: distinct_add_edge)

lemma edge_set_add_nodes_and_edges:
  "edge_set (add_nodes_and_edges g cs) = edge_set g \<union> new_edges cs"
  by (auto simp: add_nodes_and_edges_def Let_def edge_set_fold_add_edge_from new_edges_def)

lemma node_set_add_nodes_and_edges:
  "node_set (add_nodes_and_edges g cs) = node_set g \<union> \<Union> (new_edges cs)"
  by (auto simp: add_nodes_and_edges_def Let_def node_set_fold_add_edge_from new_edges_def
           split: if_splits)

lemma distinct_add_nodes_and_edges:
  "distinct (node_names g) \<Longrightarrow> distinct (node_names (add_nodes_and_edges g cs))"
  by (simp add: add_nodes_and_edges_def Let_def distinct_fold_add_edge_from
      distinct_add_nodes_from distinct_add_edge distinct_add_node)

lemma tidy_add_nodes_and_edges: "tidy_graph g \<Longrightarrow> tidy_graph (add_nodes_and_edges g cs)"
  by (simp add: tidy_graph_def distinct_add_nodes_and_edges node_set_add_nodes_and_edges
      edge_set_add_nodes_and_edges)

lemma tidy_add_change_set: "tidy_graph g \<Longrightarrow> tidy_graph (add_change_set limit g cs)"
  by (simp add: add_change_set_def Let_def tidy_add_nodes_and_edges tidy_remove_nodes
      tidy_rename_nodes)

lemma edge_set_add_change_set:
  assumes "tidy_graph g"
  shows "edge_set (add_change_set limit g cs) = step_edges limit cs (edge_set g)"
proof -
  let ?g1 = "rename_nodes g (files_rename_dict cs)"
  have t1: "tidy_graph ?g1" using assms by (rule tidy_rename_nodes)
  have "edge_set (remove_nodes ?g1 (files_delete cs))
          = {e \<in> (\<lambda>e. mapping_get (files_rename_dict cs) ` e) ` edge_set g.
               e \<inter> set (files_delete cs) = {}}"
    using edge_set_remove_nodes[OF tidy_closed[OF t1]] edge_set_rename_nodes[OF assms] by simp
  then show ?thesis
    by (simp add: add_change_set_def Let_def step_edges_def edge_set_add_nodes_and_edges)
qed

lemma tidy_add_change_sets: "tidy_graph g \<Longrightarrow> tidy_graph (add_change_sets limit g css)"
proof -
  have "tidy_graph g \<Longrightarrow> tidy_graph (fold (\<lambda>cs h. add_change_set limit h cs) css g)"
    by (induction css arbitrary: g) (simp_all add: tidy_add_change_set)
  then show "tidy_graph g \<Longrightarrow> ?thesis" by (simp add: add_change_sets_def)
qed

lemma edge_set_add_change_sets:
  "tidy_graph g \<Longrightarrow>
   edge_set (add_change_sets limit g css) = fold (step_edges limit) css (edge_set g)"
proof -
  have "tidy_graph g \<Longrightarrow>
        edge_set (fold (\<lambda>cs h. add_change_set limit h cs) css g) = fold (step_edges limit) css (edge_set g)"
    by (induction css arbitrary: g) (simp_all add: tidy_add_change_set edge_set_add_change_set)
  then show "tidy_graph g \<Longrightarrow> ?thesis" by (simp add: add_change_sets_def)
qed

lemma tidy_remove_change_sets: "tidy_graph g \<Longrightarrow> tidy_graph (remove_change_sets g css)"
  by (simp add: remove_change_sets_def tidy_remove_nodes)

lemma edge_set_remove_change_sets:
  "tidy_graph g \<Longrightarrow>
   edge_set (remove_change_sets g css) = {e \<in> edge_set g. e \<inter> commit_hash ` set css = {}}"
  by (simp add: remove_change_sets_def edge_set_remove_nodes tidy_closed)


section \<open>Properties of the history graph\<close>

subsection \<open>Claim C4: a slide that is not possible changes nothing\<close>

text \<open>
  Claim C4. Whenever the window manager cannot advance (the day after \<open>last_date\<close>
  is not a key of the timeline), \<open>forward_graph_one_day\<close> returns \<open>False\<close> and the
  history graph after the call is the one before it: the window bounds, the nodes and
  edges of the graph, the project-file-count baseline and every memoized structure
  are unchanged.
\<close>

theorem forward_graph_one_day_exhausted:
  assumes "can_slide (data_manager s) = Inr False"
  shows "forward_graph_one_day s = Inr (False, s)"
  using assms by (simp add: forward_graph_one_day_def forward_one_day_def)

text \<open>The theorem at the history graph whose window already covers the whole dataset.\<close>

theorem forward_graph_one_day_exhausted_witness:
  "can_slide (data_manager whole_range_state) = Inr False
   \<and> forward_graph_one_day whole_range_state = Inr (False, whole_range_state)"
proof -
  have "can_slide (data_manager whole_range_state) = Inr False"
    by code_simp
  then show ?thesis using forward_graph_one_day_exhausted by blast
qed

subsection \<open>Claim C5: large change sets\<close>

text \<open>
  Claim C5. When the number of add/modify targets of a change set exceeds
  \<open>num_files_limit\<close>, one pass of the loop of \<open>_add_change_sets\<close> yields exactly the
  graph with the renames and then the deletions of the change set applied: nothing is
  added for the change set. On a graph without isolated nodes this means that every
  edge of the result is the renamed image of an edge that was there, and every node
  the renamed image of a node that was there.
\<close>

theorem large_change_set_adds_nothing:
  assumes "int (length (files_add_modify cs)) > limit"
  shows "add_change_set limit g cs
           = remove_nodes (rename_nodes g (files_rename_dict cs)) (files_delete cs)
         \<and> (tidy_graph g \<longrightarrow>
              edge_set (add_change_set limit g cs)
                = {e \<in> (\<lambda>e. mapping_get (files_rename_dict cs) ` e) ` edge_set g.
                     e \<inter> set (files_delete cs) = {}}
              \<and> node_set (add_change_set limit g cs)
                    \<subseteq> mapping_get (files_rename_dict cs) ` node_set g)"
proof (intro conjI impI)
  show "add_change_set limit g cs
          = remove_nodes (rename_nodes g (files_rename_dict cs)) (files_delete cs)"
    using assms by (simp add: add_change_set_def Let_def)
next
  assume t: "tidy_graph g"
  show e: "edge_set (add_change_set limit g cs)
          = {e \<in> (\<lambda>e. mapping_get (files_rename_dict cs) ` e) ` edge_set g.
               e \<inter> set (files_delete cs) = {}}"
    using assms by (simp add: edge_set_add_change_set[OF t] step_edges_def)
  have "tidy_graph (add_change_set limit g cs)" using t by (rule tidy_add_change_set)
  then have "node_set (add_change_set limit g cs) = \<Union> (edge_set (add_change_set limit g cs))"
    by (simp add: tidy_graph_def)
  also have "\<dots> \<subseteq> mapping_get (files_rename_dict cs) ` \<Union> (edge_set g)"
    unfolding e by auto
  finally show "node_set (add_change_set limit g cs)
                  \<subseteq> mapping_get (files_rename_dict cs) ` node_set g"
    using t by (simp add: tidy_graph_def)
qed

text \<open>The theorem at a limit of two files: the change set has three add/modify targets,
  so only its deletion of \<open>F1\<close> and its renaming of \<open>F2\<close> reach the graph.\<close>

theorem large_change_set_adds_nothing_witness:
  "int (length (files_add_modify big_change_set)) > 2
   \<and> add_change_set 2 two_commit_graph big_change_set
       = remove_nodes (rename_nodes two_commit_graph (files_rename_dict big_change_set))
           (files_delete big_change_set)
   \<and> node_names (add_change_set 2 two_commit_graph big_change_set)
       = [''c1'', ''d1'', ''c2'', ''d2'', ''G2'']"
proof -
  have 1: "int (length (files_add_modify big_change_set)) > 2" by code_simp
  have 2: "node_names (add_change_set 2 two_commit_graph big_change_set) = [''c1'', ''d1'', ''c2'', ''d2'', ''G2'']"
    by code_simp
  from large_change_set_adds_nothing[OF 1, of two_commit_graph] 1 2 show ?thesis by blast
qed

section \<open>The memo is coherent in every reachable state\<close>

subsection \<open>The memo does not influence the computed values\<close>

lemma calculate_distance_cache [simp]:
  "calculate_distance (s\<lparr>current_data := c\<rparr>) d = calculate_distance s d"
  by (simp add: calculate_distance_def which_day_def split: option.splits sum.splits)

lemma find_reachable_loop_cache [simp]:
  "find_reachable_loop (s\<lparr>current_data := c\<rparr>) kinds visited files stack
     = find_reachable_loop s kinds visited files stack"
proof (induction s kinds visited files stack rule: find_reachable_loop.induct)
  case (1 s kinds visited reachable_files)
  then show ?case by (simp add: find_reachable_loop.simps)
next
  case (2 s kinds visited reachable_files parent distance_now stack)
  then show ?case by (simp add: find_reachable_loop.simps)
next
  case (3 s kinds visited reachable_files parent distance_now child children stack)
  show ?case
    apply (subst (1 2) find_reachable_loop.simps)
    using 3 by (auto split: option.splits sum.splits distance.splits)
qed

lemma reachable_files_table_cache [simp]:
  "reachable_files_table (s\<lparr>current_data := c\<rparr>) kinds devs acc
     = reachable_files_table s kinds devs acc"
  by (induction devs arbitrary: acc) (auto split: sum.splits)

lemma window_reachable_files_cache [simp]:
  "window_reachable_files (s\<lparr>current_data := c\<rparr>) = window_reachable_files s"
  by (simp add: window_reachable_files_def get_developers_def)

lemma window_file_to_devs_cache [simp]:
  "window_file_to_devs (s\<lparr>current_data := c\<rparr>) = window_file_to_devs s"
  by (simp add: window_file_to_devs_def)

lemma window_rare_files_cache [simp]:
  "window_rare_files (s\<lparr>current_data := c\<rparr>) = window_rare_files s"
  by (simp add: window_rare_files_def)

lemma window_jacks_cache [simp]:
  "window_jacks (s\<lparr>current_data := c\<rparr>) = window_jacks s"
  by (simp add: window_jacks_def get_num_files_def split: sum.splits)

lemma window_mavens_cache [simp]:
  "window_mavens (s\<lparr>current_data := c\<rparr>) = window_mavens s"
  by (simp add: window_mavens_def split: sum.splits)

lemma coherent_cache:
  "coherent (s\<lparr>current_data := c\<rparr>) \<longleftrightarrow>
     (\<forall>v. node_kinds c = Some v \<longrightarrow> v = node_kinds_of (G s))
   \<and> (\<forall>v. dev_to_reachable_files c = Some v \<longrightarrow> window_reachable_files s = Inr v)
   \<and> (\<forall>v. file_to_devs c = Some v \<longrightarrow> window_file_to_devs s = Inr v)
   \<and> (\<forall>v. dev_to_rare_files c = Some v \<longrightarrow> window_rare_files s = Inr v)
   \<and> (\<forall>v. jacks c = Some v \<longrightarrow> window_jacks s = Inr v)
   \<and> (\<forall>v. mavens c = Some v \<longrightarrow> window_mavens s = Inr v)"
  by (simp add: coherent_def)

lemma coherent_fresh: "current_data s = empty_cache \<Longrightarrow> coherent s"
  by (simp add: coherent_def empty_cache_def)

lemma agrees_Inl: "agrees r (Inl e) s \<longleftrightarrow> r = Inl e"
  by (simp add: agrees_def)

lemma agrees_Inr:
  "agrees r (Inr v) s \<longleftrightarrow> (\<exists>c. r = Inr (v, s\<lparr>current_data := c\<rparr>) \<and> coherent (s\<lparr>current_data := c\<rparr>))"
  by (simp add: agrees_def)

lemma agrees_cache:
  "agrees r p (s\<lparr>current_data := c\<rparr>) \<longleftrightarrow> agrees r p s"
  by (cases p) (simp_all add: agrees_def)

lemma get_node_kinds_coherent:
  assumes "coherent s"
  shows "\<exists>c. get_node_kinds s = (node_kinds_of (G s), s\<lparr>current_data := c\<rparr>)
            \<and> coherent (s\<lparr>current_data := c\<rparr>)"
proof (cases "node_kinds (current_data s)")
  case None
  let ?c = "(current_data s)\<lparr>node_kinds := Some (node_kinds_of (G s))\<rparr>"
  have "coherent (s\<lparr>current_data := ?c\<rparr>)"
    using assms unfolding coherent_cache by (simp add: coherent_def)
  moreover have "get_node_kinds s = (node_kinds_of (G s), s\<lparr>current_data := ?c\<rparr>)"
    using None by (simp add: get_node_kinds_def Let_def)
  ultimately show ?thesis by blast
next
  case (Some v)
  then have v: "v = node_kinds_of (G s)" using assms by (simp add: coherent_def)
  have "get_node_kinds s = (node_kinds_of (G s), s\<lparr>current_data := current_data s\<rparr>)"
    using Some v by (simp add: get_node_kinds_def)
  moreover have "coherent (s\<lparr>current_data := current_data s\<rparr>)" using assms by simp
  ultimately show ?thesis by blast
qed

lemma find_reachable_files_agrees:
  assumes "coherent s"
  shows "agrees (find_reachable_files s dev)
           (if \<not> has_node (G s) dev then Inl KeyError
            else find_reachable_loop s (node_kinds_of (G s)) [dev] []
                   [(dev, 0, neighbors (G s) dev)]) s"
proof -
  obtain c where c: "get_node_kinds s = (node_kinds_of (G s), s\<lparr>current_data := c\<rparr>)"
    and co: "coherent (s\<lparr>current_data := c\<rparr>)"
    using get_node_kinds_coherent[OF assms] by blast
  show ?thesis
    using co by (auto simp: find_reachable_files_def c agrees_def split: sum.splits)
qed

lemma reachable_files_loop_agrees:
  "coherent s \<Longrightarrow>
   agrees (reachable_files_loop s devs acc)
          (reachable_files_table s (node_kinds_of (G s)) devs acc) s"
proof (induction devs arbitrary: s acc)
  case Nil
  have "coherent (s\<lparr>current_data := current_data s\<rparr>)" using Nil by simp
  then show ?case unfolding agrees_def by (auto intro: exI[of _ "current_data s"])
next
  case (Cons dev devs)
  note fr = find_reachable_files_agrees[OF Cons.prems, of dev]
  show ?case
  proof (cases "has_node (G s) dev")
    case False
    then show ?thesis using fr by (simp add: agrees_def)
  next
    case True
    show ?thesis
    proof (cases "find_reachable_loop s (node_kinds_of (G s)) [dev] [] [(dev, 0, neighbors (G s) dev)]")
      case (Inl e)
      then show ?thesis using fr True by (simp add: agrees_def)
    next
      case (Inr files)
      then obtain c where c: "find_reachable_files s dev = Inr (files, s\<lparr>current_data := c\<rparr>)"
        and co: "coherent (s\<lparr>current_data := c\<rparr>)"
        using fr True by (auto simp: agrees_def)
      have "agrees (reachable_files_loop (s\<lparr>current_data := c\<rparr>) devs (AList.update dev files acc))
              (reachable_files_table (s\<lparr>current_data := c\<rparr>)
                 (node_kinds_of (G (s\<lparr>current_data := c\<rparr>))) devs (AList.update dev files acc))
              (s\<lparr>current_data := c\<rparr>)"
        using co by (rule Cons.IH)
      then have "agrees (reachable_files_loop (s\<lparr>current_data := c\<rparr>) devs (AList.update dev files acc))
              (reachable_files_table s (node_kinds_of (G s)) devs (AList.update dev files acc)) s"
        by (simp add: agrees_cache)
      then show ?thesis using True Inr c by simp
    qed
  qed
qed

lemma agrees_cached:
  assumes "coherent s"
  shows "agrees (Inr (v, s)) (Inr v) s"
proof -
  have "coherent (s\<lparr>current_data := current_data s\<rparr>)" using assms by simp
  moreover have "(Inr (v, s) :: error + ('a \<times> HistoryGraph)) = Inr (v, s\<lparr>current_data := current_data s\<rparr>)"
    by simp
  ultimately show ?thesis unfolding agrees_Inr by blast
qed

lemma get_dev_to_reachable_files_agrees:
  assumes "coherent s"
  shows "agrees (get_dev_to_reachable_files s) (window_reachable_files s) s"
proof (cases "dev_to_reachable_files (current_data s)")
  case (Some v)
  then have "window_reachable_files s = Inr v" using assms by (simp add: coherent_def)
  then show ?thesis
    using agrees_cached[OF assms] Some by (simp add: get_dev_to_reachable_files_def)
next
  case None
  note lp = reachable_files_loop_agrees[OF assms, of "get_developers s" "[]"]
  show ?thesis
  proof (cases "window_reachable_files s")
    case (Inl e)
    then show ?thesis
      using lp None by (simp add: agrees_def window_reachable_files_def get_dev_to_reachable_files_def)
  next
    case (Inr d)
    then obtain c where c: "reachable_files_loop s (get_developers s) [] = Inr (d, s\<lparr>current_data := c\<rparr>)"
      and co: "coherent (s\<lparr>current_data := c\<rparr>)"
      using lp by (auto simp: agrees_def window_reachable_files_def)
    let ?c = "c\<lparr>dev_to_reachable_files := Some d\<rparr>"
    have "coherent (s\<lparr>current_data := ?c\<rparr>)"
      using co Inr unfolding coherent_cache by simp
    moreover have "get_dev_to_reachable_files s = Inr (d, s\<lparr>current_data := ?c\<rparr>)"
      using None c by (simp add: get_dev_to_reachable_files_def)
    ultimately show ?thesis unfolding Inr agrees_Inr by blast
  qed
qed

lemma get_file_to_devs_agrees:
  assumes "coherent s"
  shows "agrees (get_file_to_devs s) (window_file_to_devs s) s"
proof (cases "file_to_devs (current_data s)")
  case (Some v)
  then have "window_file_to_devs s = Inr v" using assms by (simp add: coherent_def)
  then show ?thesis
    using agrees_cached[OF assms] Some by (simp add: get_file_to_devs_def)
next
  case None
  note dep = get_dev_to_reachable_files_agrees[OF assms]
  show ?thesis
  proof (cases "window_reachable_files s")
    case (Inl e)
    then show ?thesis
      using dep None by (simp add: agrees_def window_file_to_devs_def get_file_to_devs_def)
  next
    case (Inr d)
    then obtain c where c: "get_dev_to_reachable_files s = Inr (d, s\<lparr>current_data := c\<rparr>)"
      and co: "coherent (s\<lparr>current_data := c\<rparr>)"
      using dep by (auto simp: agrees_def)
    let ?v = "invert_dev_to_files d"
    let ?c = "c\<lparr>file_to_devs := Some ?v\<rparr>"
    have w: "window_file_to_devs s = Inr ?v" using Inr by (simp add: window_file_to_devs_def)
    have "coherent (s\<lparr>current_data := ?c\<rparr>)"
      using co w unfolding coherent_cache by simp
    moreover have "get_file_to_devs s = Inr (?v, s\<lparr>current_data := ?c\<rparr>)"
      using None c by (simp add: get_file_to_devs_def Let_def)
    ultimately show ?thesis unfolding w agrees_Inr by blast
  qed
qed

lemma get_dev_to_rare_files_agrees:
  assumes "coherent s"
  shows "agrees (get_dev_to_rare_files s) (window_rare_files s) s"
proof (cases "dev_to_rare_files (current_data s)")
  case (Some v)
  then have "window_rare_files s = Inr v" using assms by (simp add: coherent_def)
  then show ?thesis
    using agrees_cached[OF assms] Some by (simp add: get_dev_to_rare_files_def)
next
  case None
  note dep = get_file_to_devs_agrees[OF assms]
  show ?thesis
  proof (cases "window_file_to_devs s")
    case (Inl e)
    then show ?thesis
      using dep None by (simp add: agrees_def window_rare_files_def get_dev_to_rare_files_def)
  next
    case (Inr d)
    then obtain c where c: "get_file_to_devs s = Inr (d, s\<lparr>current_data := c\<rparr>)"
      and co: "coherent (s\<lparr>current_data := c\<rparr>)"
      using dep by (auto simp: agrees_def)
    let ?v = "rare_files_of d"
    let ?c = "c\<lparr>dev_to_rare_files := Some ?v\<rparr>"
    have w: "window_rare_files s = Inr ?v" using Inr by (simp add: window_rare_files_def)
    have "coherent (s\<lparr>current_data := ?c\<rparr>)"
      using co w unfolding coherent_cache by simp
    moreover have "get_dev_to_rare_files s = Inr (?v, s\<lparr>current_data := ?c\<rparr>)"
      using None c by (simp add: get_dev_to_rare_files_def Let_def)
    ultimately show ?thesis unfolding w agrees_Inr by blast
  qed
qed

lemma get_num_rare_files_agrees:
  assumes "coherent s"
  shows "agrees (get_num_rare_files s)
           (case window_rare_files s of Inl e \<Rightarrow> Inl e | Inr d \<Rightarrow> Inr (total_files d)) s"
  using get_dev_to_rare_files_agrees[OF assms]
  by (auto simp: agrees_def get_num_rare_files_def total_files_def split: sum.splits)

text \<open>The unfiltered score tables.\<close>

lemma dev_to_file_coverage_agrees:
  assumes "coherent s"
  shows "agrees (dev_to_file_coverage s)
           (case window_reachable_files s of
              Inl e \<Rightarrow> Inl e
            | Inr d \<Rightarrow> score_loop d (get_num_files s) []) s"
  using get_dev_to_reachable_files_agrees[OF assms]
  by (auto simp: agrees_def dev_to_file_coverage_def get_num_files_def split: sum.splits)

lemma dev_to_mavenness_agrees:
  assumes "coherent s"
  shows "agrees (dev_to_mavenness s)
           (case window_rare_files s of
              Inl e \<Rightarrow> Inl e
            | Inr d \<Rightarrow> score_loop d (total_files d) []) s"
proof (cases "window_rare_files s")
  case (Inl e)
  then show ?thesis
    using get_dev_to_rare_files_agrees[OF assms] by (simp add: agrees_def dev_to_mavenness_def)
next
  case (Inr d)
  then obtain c where c: "get_dev_to_rare_files s = Inr (d, s\<lparr>current_data := c\<rparr>)"
    and co: "coherent (s\<lparr>current_data := c\<rparr>)"
    using get_dev_to_rare_files_agrees[OF assms] by (auto simp: agrees_def)
  have "agrees (get_num_rare_files (s\<lparr>current_data := c\<rparr>)) (Inr (total_files d)) (s\<lparr>current_data := c\<rparr>)"
    using get_num_rare_files_agrees[OF co] Inr by simp
  then obtain c' where c': "get_num_rare_files (s\<lparr>current_data := c\<rparr>) = Inr (total_files d, s\<lparr>current_data := c'\<rparr>)"
    and co': "coherent (s\<lparr>current_data := c'\<rparr>)"
    by (auto simp: agrees_def)
  show ?thesis
    using co' by (auto simp: Inr agrees_def dev_to_mavenness_def c c' split: sum.splits)
qed

lemma get_jacks_agrees:
  assumes "coherent s"
  shows "agrees (get_jacks s) (window_jacks s) s"
proof (cases "jacks (current_data s)")
  case (Some v)
  then have "window_jacks s = Inr v" using assms by (simp add: coherent_def)
  then show ?thesis
    using agrees_cached[OF assms] Some by (simp add: get_jacks_def)
next
  case None
  note dep = dev_to_file_coverage_agrees[OF assms]
  show ?thesis
  proof (cases "window_jacks s")
    case (Inl e)
    then show ?thesis
      using dep None by (auto simp: agrees_def window_jacks_def get_jacks_def split: sum.splits)
  next
    case (Inr v)
    then obtain d table where d: "window_reachable_files s = Inr d"
      and t: "score_loop d (get_num_files s) [] = Inr table"
      and v: "v = sort_and_filter (score_threshold s) table"
      by (auto simp: window_jacks_def split: sum.splits)
    obtain c where c: "dev_to_file_coverage s = Inr (table, s\<lparr>current_data := c\<rparr>)"
      and co: "coherent (s\<lparr>current_data := c\<rparr>)"
      using dep d t by (auto simp: agrees_def)
    let ?c = "c\<lparr>jacks := Some v\<rparr>"
    have "coherent (s\<lparr>current_data := ?c\<rparr>)"
      using co Inr unfolding coherent_cache by simp
    moreover have "get_jacks s = Inr (v, s\<lparr>current_data := ?c\<rparr>)"
      using None c v by (simp add: get_jacks_def Let_def)
    ultimately show ?thesis unfolding Inr agrees_Inr by blast
  qed
qed

lemma get_mavens_agrees:
  assumes "coherent s"
  shows "agrees (get_mavens s) (window_mavens s) s"
proof (cases "mavens (current_data s)")
  case (Some v)
  then have "window_mavens s = Inr v" using assms by (simp add: coherent_def)
  then show ?thesis
    using agrees_cached[OF assms] Some by (simp add: get_mavens_def)
next
  case None
  note dep = dev_to_mavenness_agrees[OF assms]
  show ?thesis
  proof (cases "window_mavens s")
    case (Inl e)
    then show ?thesis
      using dep None by (auto simp: agrees_def window_mavens_def get_mavens_def split: sum.splits)
  next
    case (Inr v)
    then obtain d table where d: "window_rare_files s = Inr d"
      and t: "score_loop d (total_files d) [] = Inr table"
      and v: "v = sort_and_filter (score_threshold s) table"
      by (auto simp: window_mavens_def split: sum.splits)
    obtain c where c: "dev_to_mavenness s = Inr (table, s\<lparr>current_data := c\<rparr>)"
      and co: "coherent (s\<lparr>current_data := c\<rparr>)"
      using dep d t by (auto simp: agrees_def)
    let ?c = "c\<lparr>mavens := Some v\<rparr>"
    have "coherent (s\<lparr>current_data := ?c\<rparr>)"
      using co Inr unfolding coherent_cache by simp
    moreover have "get_mavens s = Inr (v, s\<lparr>current_data := ?c\<rparr>)"
      using None c v by (simp add: get_mavens_def Let_def)
    ultimately show ?thesis unfolding Inr agrees_Inr by blast
  qed
qed

lemma agrees_coherent:
  "agrees r p s \<Longrightarrow> r = Inr (v, s') \<Longrightarrow> coherent s'"
  by (cases p) (auto simp: agrees_def)

lemma reachable_coherent: "reachable s \<Longrightarrow> coherent s"
proof (induction rule: reachable.induct)
  case (init js days limit files_limit threshold s)
  then have "current_data s = empty_cache"
    by (auto simp: HistoryGraph_init_def split: sum.splits if_splits)
  then show ?case by (rule coherent_fresh)
next
  case (forward s b s')
  then show ?case
    by (auto simp: forward_graph_one_day_def Let_def coherent_fresh split: sum.splits if_splits)
next
  case (node_kinds s v s')
  then show ?case using get_node_kinds_coherent[of s] by auto
next
  case (reachable_files s d s')
  then show ?case using agrees_coherent[OF get_dev_to_reachable_files_agrees] by blast
next
  case (file_to_devs s d s')
  then show ?case using agrees_coherent[OF get_file_to_devs_agrees] by blast
next
  case (rare_files s d s')
  then show ?case using agrees_coherent[OF get_dev_to_rare_files_agrees] by blast
next
  case (num_rare_files s n s')
  then show ?case using agrees_coherent[OF get_num_rare_files_agrees] by blast
next
  case (jacks s t s')
  then show ?case using agrees_coherent[OF get_jacks_agrees] by blast
next
  case (mavens s t s')
  then show ?case using agrees_coherent[OF get_mavens_agrees] by blast
qed

section \<open>Every reachable state is valid\<close>

lemma update_with_aux_present:
  "k \<in> fst ` set ps \<Longrightarrow> AList.update_with_aux v k (\<lambda>a. a) ps = ps"
  by (induction ps) auto

lemma nodes_add_edge_present:
  "u \<in> node_set g \<Longrightarrow> v \<in> node_set g \<Longrightarrow> nodes (add_edge g u v d k) = nodes g"
  by (simp add: add_edge_def node_set_def node_names_def update_with_aux_present)

lemma set_update_subset: "set (AList.update k v al) \<subseteq> insert (k, v) (set al)"
  by (induction al) auto

lemma kinded_add_node: "kinded g \<Longrightarrow> kinded (add_node g n k)"
  using set_update_subset[of n "Some k" "nodes g"] unfolding kinded_def add_node_def by auto

lemma kinded_add_nodes_from: "kinded g \<Longrightarrow> kinded (add_nodes_from g ns k)"
  unfolding add_nodes_from_def by (induction ns arbitrary: g) (simp_all add: kinded_add_node)

lemma kinded_add_edge:
  "kinded g \<Longrightarrow> u \<in> node_set g \<Longrightarrow> v \<in> node_set g \<Longrightarrow> kinded (add_edge g u v d k)"
  by (simp add: kinded_def nodes_add_edge_present)

lemma kinded_fold_add_edge_from:
  "kinded g \<Longrightarrow> u \<in> node_set g \<Longrightarrow> set xs \<subseteq> node_set g \<Longrightarrow>
   kinded (fold (\<lambda>x h. add_edge h u x d k) xs g)"
proof (induction xs arbitrary: g)
  case Nil
  then show ?case by simp
next
  case (Cons x xs)
  have 1: "kinded (add_edge g u x d k)" using Cons.prems by (intro kinded_add_edge) auto
  have 2: "u \<in> node_set (add_edge g u x d k)" by simp
  have 3: "set xs \<subseteq> node_set (add_edge g u x d k)" using Cons.prems(3) by auto
  show ?case using Cons.IH[OF 1 2 3] by simp
qed

lemma kinded_add_nodes_and_edges:
  assumes "kinded g"
  shows "kinded (add_nodes_and_edges g cs)"
proof -
  define g1 where "g1 = add_node g (commit_hash cs) ''ChangeSet''"
  define g2 where "g2 = add_node g1 (author cs) ''Developer''"
  define g3 where "g3 = add_edge g2 (author cs) (commit_hash cs) None None"
  define g4 where "g4 = add_nodes_from g3 (files_add_modify cs) ''File''"
  define g5 where "g5 = fold (\<lambda>f h. add_edge h (commit_hash cs) f (Some (date cs)) (Some ''include''))
                    (files_add_modify cs) g4"
  define g6 where "g6 = add_nodes_from g5 (issues cs) ''Issue''"
  have k2: "kinded g2" unfolding g2_def g1_def using assms by (intro kinded_add_node)
  have k3: "kinded g3" unfolding g3_def using k2
    by (rule kinded_add_edge) (simp_all add: g2_def g1_def)
  have n3: "commit_hash cs \<in> node_set g3" by (simp add: g3_def)
  have k4: "kinded g4" unfolding g4_def using k3 by (rule kinded_add_nodes_from)
  have k5: "kinded g5" unfolding g5_def using k4
    by (rule kinded_fold_add_edge_from) (simp_all add: g4_def n3)
  have n5: "commit_hash cs \<in> node_set g5"
    using n3 by (simp add: g5_def g4_def node_set_fold_add_edge_from)
  have k6: "kinded g6" unfolding g6_def using k5 by (rule kinded_add_nodes_from)
  have "kinded (fold (\<lambda>i h. add_edge h (commit_hash cs) i (Some (date cs)) (Some ''link''))
              (issues cs) g6)"
    using k6 by (rule kinded_fold_add_edge_from) (simp_all add: g6_def n5)
  then show ?thesis
    by (simp add: add_nodes_and_edges_def Let_def g1_def g2_def g3_def g4_def g5_def g6_def)
qed

lemma kinded_remove_node: "kinded g \<Longrightarrow> kinded (remove_node g n)"
  by (auto simp: kinded_def remove_node_def AList.delete_eq)

lemma kinded_remove_nodes_from: "kinded g \<Longrightarrow> kinded (remove_nodes_from g ns)"
  unfolding remove_nodes_from_def by (induction ns arbitrary: g) (simp_all add: kinded_remove_node)

lemma kinded_remove_nodes: "kinded g \<Longrightarrow> kinded (remove_nodes g ns)"
  by (simp add: remove_nodes_def Let_def kinded_remove_nodes_from)

lemma set_fold_update:
  "set (fold (\<lambda>p ns. AList.update (f (fst p)) (snd p) ns) l acc) \<subseteq> set acc \<union> (\<lambda>p. (f (fst p), snd p)) ` set l"
proof (induction l arbitrary: acc)
  case Nil
  then show ?case by simp
next
  case (Cons p l)
  have "set (AList.update (f (fst p)) (snd p) acc) \<subseteq> insert (f (fst p), snd p) (set acc)"
    by (rule set_update_subset)
  moreover have "set (fold (\<lambda>p ns. AList.update (f (fst p)) (snd p) ns) l (AList.update (f (fst p)) (snd p) acc))
     \<subseteq> set (AList.update (f (fst p)) (snd p) acc) \<union> (\<lambda>p. (f (fst p), snd p)) ` set l"
    by (rule Cons)
  ultimately show ?case by auto
qed

lemma kinded_fold_add_edge_closed:
  "kinded h \<Longrightarrow> (\<forall>t \<in> set l. f1 t \<in> node_set h \<and> f2 t \<in> node_set h) \<Longrightarrow>
   kinded (fold (\<lambda>t h. add_edge h (f1 t) (f2 t) (d t) (k t)) l h)"
  by (induction l arbitrary: h) (simp_all add: kinded_add_edge)

lemma kinded_relabel_nodes:
  assumes "kinded g" "distinct (node_names g)" "closed_graph g"
  shows "kinded (relabel_nodes g m)"
  unfolding relabel_nodes_alt
proof (rule kinded_fold_add_edge_closed)
  let ?h = "\<lparr>nodes = fold (\<lambda>p ns. AList.update (mapping_get m (fst p)) (snd p) ns) (nodes g) [],
             edges = []\<rparr>"
  show "kinded ?h"
    unfolding kinded_def
  proof
    fix q assume "q \<in> set (nodes ?h)"
    then have "q \<in> (\<lambda>p. (mapping_get m (fst p), snd p)) ` set (nodes g)"
      using set_fold_update[of "mapping_get m" "nodes g" "[]"] by auto
    then obtain p where "p \<in> set (nodes g)" "snd q = snd p" by auto
    then show "snd q \<noteq> None" using assms(1) by (simp add: kinded_def)
  qed
  have ns: "node_set ?h = mapping_get m ` node_set g"
    by (simp add: node_set_def node_names_def keys_fold_update)
  show "\<forall>t \<in> set (graph_edges g). mapping_get m (fst t) \<in> node_set ?h \<and> mapping_get m (fst (snd t)) \<in> node_set ?h"
  proof
    fix t assume "t \<in> set (graph_edges g)"
    then have "{fst t, fst (snd t)} \<in> pairs_of (graph_edges g)" by (auto simp: pairs_of_def)
    then have "{fst t, fst (snd t)} \<in> edge_set g"
      using pairs_of_graph_edges[OF assms(2,3)] by simp
    then have "fst t \<in> node_set g" "fst (snd t) \<in> node_set g"
      using assms(3) by (auto simp: closed_graph_def)
    then show "mapping_get m (fst t) \<in> node_set ?h \<and> mapping_get m (fst (snd t)) \<in> node_set ?h"
      unfolding ns by blast
  qed
qed

lemma kinded_rename_nodes: "kinded g \<Longrightarrow> tidy_graph g \<Longrightarrow> kinded (rename_nodes g m)"
  by (simp add: rename_nodes_def kinded_relabel_nodes tidy_closed tidy_graph_def)

lemma kinded_add_change_set:
  "kinded g \<Longrightarrow> tidy_graph g \<Longrightarrow> kinded (add_change_set limit g cs)"
  by (simp add: add_change_set_def Let_def kinded_add_nodes_and_edges kinded_remove_nodes
      kinded_rename_nodes)

lemma kinded_add_change_sets:
  "kinded g \<Longrightarrow> tidy_graph g \<Longrightarrow> kinded (add_change_sets limit g css)"
proof -
  have "kinded g \<Longrightarrow> tidy_graph g \<Longrightarrow> kinded (fold (\<lambda>cs h. add_change_set limit h cs) css g)"
    by (induction css arbitrary: g) (simp_all add: kinded_add_change_set tidy_add_change_set)
  then show "kinded g \<Longrightarrow> tidy_graph g \<Longrightarrow> ?thesis" by (simp add: add_change_sets_def)
qed

lemma kinded_remove_change_sets: "kinded g \<Longrightarrow> kinded (remove_change_sets g css)"
  by (simp add: remove_change_sets_def kinded_remove_nodes)

lemma kinded_empty: "kinded empty_graph"
  by (simp add: kinded_def empty_graph_def)

lemma sorted_generate:
  "generate_date_to_change_sets js = Inr d \<Longrightarrow> sorted (map fst d)"
  by (auto simp: generate_date_to_change_sets_def Let_def keys_sort_dict split: sum.splits if_splits)

lemma initial_window_size:
  assumes "sorted (map fst (date_to_change_sets dm))" "get_initial_window dm = Inr (css, dm')"
  shows "1 \<le> sliding_window_size dm \<and> first_date dm' \<noteq> None \<and> last_date dm' \<noteq> None
         \<and> sliding_window_size dm' = sliding_window_size dm"
proof (cases "date_to_change_sets dm")
  case Nil
  then show ?thesis using assms(2) by (simp add: get_initial_window_def)
next
  case (Cons p rest)
  obtain k v where p: "p = (k, v)" by (cases p)
  let ?l = "add_days k (sliding_window_size dm - 1)"
  have l: "?l \<in> fst ` set (date_to_change_sets dm)"
    and dm': "dm' = dm\<lparr>first_date := Some k, last_date := Some ?l\<rparr>"
    using assms(2) Cons p by (auto simp: get_initial_window_def Let_def split: if_splits)
  have "k \<le> ?l" using assms(1) l Cons p by auto
  then have "fst k \<le> fst k + (sliding_window_size dm - 1)"
    by (auto simp: add_days_def less_eq_prod_def)
  then show ?thesis using dm' by simp
qed

lemma valid_state_cache [simp]: "valid_state (s\<lparr>current_data := c\<rparr>) = valid_state s"
  by (simp add: valid_state_def)

lemma valid_init:
  assumes "HistoryGraph_init js days limit files_limit threshold = Inr s"
  shows "valid_state s"
proof -
  obtain dm css dm' where dm: "DataManager_init js days = Inr dm"
    and w: "get_initial_window dm = Inr (css, dm')"
    and s: "s = \<lparr>graph_range_in_days = days, distance_limit = limit,
                 num_files_limit = files_limit, score_threshold = threshold,
                 number_of_files_in_project = num_files_in_project (last css),
                 current_data = empty_cache, data_manager = dm',
                 G = add_change_sets files_limit empty_graph css\<rparr>"
    using assms by (auto simp: HistoryGraph_init_def split: sum.splits if_splits)
  have "sorted (map fst (date_to_change_sets dm))" and sz: "sliding_window_size dm = days"
    using dm sorted_generate by (auto simp: DataManager_init_def split: sum.splits)
  then have "1 \<le> days" "first_date dm' \<noteq> None"
    using initial_window_size[OF _ w] sz by auto
  moreover have "tidy_graph (add_change_sets files_limit empty_graph css)"
    by (intro tidy_add_change_sets tidy_empty)
  moreover have "kinded (add_change_sets files_limit empty_graph css)"
    by (intro kinded_add_change_sets kinded_empty tidy_empty)
  ultimately show ?thesis by (simp add: valid_state_def s)
qed

lemma forward_one_day_first_date:
  "forward_one_day dm = Inr (r, dm') \<Longrightarrow> first_date dm' \<noteq> None"
  by (auto simp: forward_one_day_def split: sum.splits bool.splits option.splits)

lemma valid_forward:
  assumes "valid_state s" "forward_graph_one_day s = Inr (b, s')"
  shows "valid_state s'"
proof (cases "forward_one_day (data_manager s)")
  case (Inl e)
  then show ?thesis using assms by (auto simp: forward_graph_one_day_def split: if_splits)
next
  case (Inr r)
  obtain ad rm dm' where r: "r = ((ad, rm), dm')" by (metis prod.collapse)
  have f: "first_date dm' \<noteq> None" using forward_one_day_first_date Inr r by blast
  let ?g = "add_change_sets (num_files_limit s) (remove_change_sets (G s) rm) ad"
  have t: "tidy_graph (remove_change_sets (G s) rm)"
    using assms(1) by (simp add: valid_state_def tidy_remove_change_sets)
  have "tidy_graph ?g" using t by (rule tidy_add_change_sets)
  moreover have "kinded ?g"
    using assms(1) t by (intro kinded_add_change_sets kinded_remove_change_sets) (simp_all add: valid_state_def)
  moreover have "G s' = ?g" "data_manager s' = dm'" "graph_range_in_days s' = graph_range_in_days s"
    using assms(2) Inr r by (auto simp: forward_graph_one_day_def Let_def)
  ultimately show ?thesis using f assms(1) by (simp add: valid_state_def)
qed

lemma agrees_valid:
  "agrees r p s \<Longrightarrow> r = Inr (v, s') \<Longrightarrow> valid_state s \<Longrightarrow> valid_state s'"
  by (cases p) (auto simp: agrees_def)

lemma reachable_valid: "reachable s \<Longrightarrow> valid_state s"
proof (induction rule: reachable.induct)
  case (init js days limit files_limit threshold s)
  then show ?case by (rule valid_init)
next
  case (forward s b s')
  then show ?case using valid_forward by blast
next
  case (node_kinds s v s')
  then show ?case
    using get_node_kinds_coherent[OF reachable_coherent[OF node_kinds.hyps(1)]] by auto
next
  case (reachable_files s d s')
  then show ?case
    using agrees_valid[OF get_dev_to_reachable_files_agrees[OF reachable_coherent]] by blast
next
  case (file_to_devs s d s')
  then show ?case
    using agrees_valid[OF get_file_to_devs_agrees[OF reachable_coherent]] by blast
next
  case (rare_files s d s')
  then show ?case
    using agrees_valid[OF get_dev_to_rare_files_agrees[OF reachable_coherent]] by blast
next
  case (num_rare_files s n s')
  then show ?case
    using agrees_valid[OF get_num_rare_files_agrees[OF reachable_coherent]] by blast
next
  case (jacks s t s')
  then show ?case
    using agrees_valid[OF get_jacks_agrees[OF reachable_coherent]] by blast
next
  case (mavens s t s')
  then show ?case
    using agrees_valid[OF get_mavens_agrees[OF reachable_coherent]] by blast
qed

subsection \<open>The search for reachable files succeeds\<close>

lemma calculate_distance_ok:
  "valid_state s \<Longrightarrow> \<exists>x. calculate_distance s d = Inr x"
  by (auto simp: valid_state_def calculate_distance_def which_day_def Let_def split: option.splits)

lemma neighbors_edge_set: "x \<in> set (neighbors g n) \<Longrightarrow> {n, x} \<in> edge_set g"
proof -
  assume "x \<in> set (neighbors g n)"
  then obtain a where "(x, a) \<in> set (adjacency (edges g) n)" by (auto simp: neighbors_def)
  then consider "((n, x), a) \<in> set (edges g)" | "((x, n), a) \<in> set (edges g)"
    by (auto simp: set_adjacency)
  then show ?thesis
  proof cases
    case 1
    then show ?thesis unfolding edge_set_def by (intro image_eqI[of _ _ "((n, x), a)"]) auto
  next
    case 2
    then show ?thesis unfolding edge_set_def by (intro image_eqI[of _ _ "((x, n), a)"]) auto
  qed
qed

lemma edge_data_neighbor: "x \<in> set (neighbors g n) \<Longrightarrow> edge_data g n x \<noteq> None"
proof -
  assume "x \<in> set (neighbors g n)"
  then obtain a where "(x, a) \<in> set (adjacency (edges g) n)" by (auto simp: neighbors_def)
  then have "(n, x) \<in> fst ` set (edges g) \<or> (x, n) \<in> fst ` set (edges g)"
    by (force simp: set_adjacency)
  then obtain k where k: "edge_key (edges g) n x = Some k" "k \<in> fst ` set (edges g)"
    using edge_key_cases[of "edges g" n x] by auto
  then have "map_of (edges g) k \<noteq> None" by (simp add: map_of_eq_None_iff)
  then show ?thesis using k by (simp add: edge_data_def)
qed

lemma keys_node_kinds_of:
  "fst ` set (node_kinds_of g) = {n. \<exists>k. (n, Some k) \<in> set (nodes g)}"
  unfolding node_kinds_of_def by (force split: option.splits)

lemma set_node_kinds_of:
  "(n, k) \<in> set (node_kinds_of g) \<longleftrightarrow> (n, Some k) \<in> set (nodes g)"
  unfolding node_kinds_of_def by (force split: option.splits)

lemma node_kinds_neighbor:
  assumes "valid_state s" "x \<in> set (neighbors (G s) n)"
  shows "map_of (node_kinds_of (G s)) x \<noteq> None"
proof -
  have "{n, x} \<in> edge_set (G s)" using assms(2) by (rule neighbors_edge_set)
  then have "x \<in> node_set (G s)" using assms(1) by (auto simp: valid_state_def tidy_graph_def)
  then obtain k where "(x, k) \<in> set (nodes (G s))"
    by (auto simp: node_set_def node_names_def)
  moreover from this have "k \<noteq> None" using assms(1) by (auto simp: valid_state_def kinded_def)
  ultimately have "x \<in> fst ` set (node_kinds_of (G s))"
    unfolding keys_node_kinds_of by auto
  then show ?thesis by (simp add: map_of_eq_None_iff)
qed

lemma find_reachable_loop_ok:
  "valid_state s \<Longrightarrow> kinds = node_kinds_of (G s) \<Longrightarrow>
   (\<forall>e \<in> set stack. set (snd (snd e)) \<subseteq> set (neighbors (G s) (fst e))) \<Longrightarrow>
   distinct files \<Longrightarrow> set files \<subseteq> set visited \<Longrightarrow>
   (\<forall>f \<in> set files. map_of kinds f = Some ''File'') \<Longrightarrow>
   \<exists>r. find_reachable_loop s kinds visited files stack = Inr r \<and> distinct r
        \<and> (\<forall>f \<in> set r. map_of kinds f = Some ''File'')"
proof (induction s kinds visited files stack rule: find_reachable_loop.induct)
  case (1 s kinds visited reachable_files)
  then show ?case by (simp add: find_reachable_loop.simps)
next
  case (2 s kinds visited reachable_files parent distance_now stack)
  then show ?case by (simp add: find_reachable_loop.simps)
next
  case (3 s kinds visited reachable_files parent distance_now child children stack)
  note simps = find_reachable_loop.simps(3)[of s kinds visited reachable_files parent distance_now child children stack]
  note v = "3.prems"(1) and k = "3.prems"(2) and d = "3.prems"(4) and sub = "3.prems"(5)
    and fl = "3.prems"(6)
  have st: "\<forall>e \<in> set ((parent, distance_now, children) # stack).
              set (snd (snd e)) \<subseteq> set (neighbors (G s) (fst e))"
    using "3.prems"(3) by auto
  have nb: "child \<in> set (neighbors (G s) parent)" using "3.prems"(3) by auto
  show ?case
  proof (cases "child \<in> set visited")
    case True
    then show ?thesis using "3.IH"(1)[OF True v k st d sub fl] by (simp add: simps)
  next
    case False
    obtain a where a: "edge_data (G s) parent child = Some a"
      using edge_data_neighbor[OF nb] by auto
    obtain x where x: "calculate_distance s (e_date a) = Inr x"
      using calculate_distance_ok[OF v] by blast
    show ?thesis
    proof (cases x)
      case Infinite
      then show ?thesis
        using "3.IH"(5)[OF False a x Infinite v k st d sub fl] False a x by (simp add: simps)
    next
      case (Finite dd)
      show ?thesis
      proof (cases "distance_now + dd > distance_limit s")
        case True
        then show ?thesis
          using "3.IH"(2)[OF False a x Finite True v k st d sub fl] False a x Finite
          by (simp add: simps)
      next
        case far: False
        obtain kind where kind: "map_of kinds child = Some kind"
          using node_kinds_neighbor[OF v nb] k by auto
        show ?thesis
        proof (cases "kind = ''Developer''")
          case True
          then show ?thesis
            using "3.IH"(3)[OF False a x Finite far kind True v k st d sub fl] False a x Finite far kind
            by (simp add: simps)
        next
          case nd: False
          let ?files = "if kind = ''File'' then reachable_files @ [child] else reachable_files"
          have st': "\<forall>e \<in> set ((child, distance_now + dd, neighbors (G s) child)
                        # (parent, distance_now, children) # stack).
                        set (snd (snd e)) \<subseteq> set (neighbors (G s) (fst e))"
            using st by auto
          have d': "distinct ?files" using d sub False by auto
          have sub': "set ?files \<subseteq> set (child # visited)" using sub by auto
          have fl': "\<forall>f \<in> set ?files. map_of kinds f = Some ''File''" using fl kind by auto
          show ?thesis
            using "3.IH"(4)[OF False a x Finite far kind nd v k st' d' sub' fl']
              False a x Finite far kind nd
            by (simp add: simps)
        qed
      qed
    qed
  qed
qed

section \<open>Properties of the rounding\<close>

lemma round_half_even_error: "\<bar>of_int (round_half_even y) - y\<bar> \<le> 1 / 2"
proof -
  define n where "n = \<lfloor>y\<rfloor>"
  define r where "r = y - of_int n"
  have r: "0 \<le> r" "r < 1" unfolding r_def n_def by linarith+
  have y: "y = of_int n + r" by (simp add: r_def)
  show ?thesis
    unfolding round_half_even_def Let_def n_def[symmetric] r_def[symmetric]
    using r by (auto simp: y)
qed

lemma round_half_even_mono_int:
  assumes "y \<le> of_int N"
  shows "round_half_even y \<le> N"
proof -
  define n where "n = \<lfloor>y\<rfloor>"
  define r where "r = y - of_int n"
  have r: "0 \<le> r" "r < 1" unfolding r_def n_def by linarith+
  have nN: "n \<le> N" using assms unfolding n_def by (simp add: floor_le_iff)
  have eq: "r = 0" if "n = N"
  proof -
    have "y \<le> of_int n" using assms that by simp
    then show ?thesis using r by (simp add: r_def)
  qed
  show ?thesis
    unfolding round_half_even_def Let_def n_def[symmetric] r_def[symmetric]
    using r nN eq by (cases "n = N") auto
qed

lemma round_half_even_nonneg: "0 \<le> y \<Longrightarrow> 0 \<le> round_half_even y"
  unfolding round_half_even_def Let_def by auto

lemma binade_le:
  assumes "x \<noteq> 0"
  shows "2 powi binade x \<le> \<bar>x\<bar>"
proof -
  obtain a b where q: "quotient_of \<bar>x\<bar> = (a, b)" by (cases "quotient_of \<bar>x\<bar>")
  have b: "0 < b" using q by (rule quotient_of_denom_pos)
  have x: "\<bar>x\<bar> = of_int a / of_int b" using q by (rule quotient_of_div)
  have a: "0 < a"
  proof -
    have "0 < \<bar>x\<bar>" using assms by simp
    then show ?thesis using x b by (simp add: zero_less_divide_iff)
  qed
  define e where "e = bitlen a - bitlen b"
  show ?thesis
  proof (cases "\<bar>x\<bar> < 2 powi e")
    case False
    then show ?thesis by (simp add: binade_def q e_def[symmetric])
  next
    case True
    have la: "2 ^ nat (bitlen a - 1) \<le> a" using bitlen_bounds[OF a] by simp
    have lb: "b < 2 ^ nat (bitlen b)" using bitlen_bounds[OF b] by simp
    have pa: "0 < bitlen a" using a bitlen_nonneg[of a] bitlen_eq_zero_iff[of a] by linarith
    have pb: "0 < bitlen b" using b bitlen_nonneg[of b] bitlen_eq_zero_iff[of b] by linarith
    have 1: "(2::rat) powi (bitlen a - 1) \<le> of_int a"
    proof -
      have "(2::rat) powi (bitlen a - 1) = 2 ^ nat (bitlen a - 1)"
        using pa by (simp add: power_int_def)
      also have "\<dots> = of_int (2 ^ nat (bitlen a - 1))" by simp
      also have "\<dots> \<le> of_int a" using la by (simp only: of_int_le_iff)
      finally show ?thesis .
    qed
    have 2: "of_int b \<le> (2::rat) powi (bitlen b)"
    proof -
      have "b \<le> 2 ^ nat (bitlen b)" using lb by simp
      then have "(of_int b :: rat) \<le> of_int (2 ^ nat (bitlen b))" by (simp only: of_int_le_iff)
      also have "\<dots> = 2 powi (bitlen b)" using pb by (simp add: power_int_def)
      finally show ?thesis .
    qed
    have "(2::rat) powi (e - 1) = 2 powi (bitlen a - 1) / 2 powi (bitlen b)"
      unfolding e_def by (simp add: power_int_diff)
    also have "\<dots> \<le> of_int a / 2 powi (bitlen b)"
      using 1 by (simp add: divide_right_mono)
    also have "\<dots> \<le> of_int a / of_int b"
      using 2 a b by (simp add: divide_left_mono mult_pos_pos)
    finally have le: "(2::rat) powi (e - 1) \<le> \<bar>x\<bar>" by (simp only: x)
    have "binade x = e - 1" using True by (simp add: binade_def q e_def[symmetric])
    then show ?thesis using le by simp
  qed
qed

lemma round_double_error: "\<bar>round_double x - x\<bar> \<le> \<bar>x\<bar> / 2 ^ 53 + 1 / 2 ^ 1075"
proof (cases "x = 0")
  case True
  then show ?thesis by (simp add: round_double_def round_half_even_def)
next
  case False
  define p where "p = max (binade x) (- 1022) - 52"
  define u :: rat where "u = 2 powi p"
  have u: "0 < u" by (simp add: u_def)
  have rd: "round_double x = of_int (round_half_even (x / u)) * u"
    by (simp add: round_double_def p_def u_def Let_def)
  have "\<bar>round_double x - x\<bar> = \<bar>of_int (round_half_even (x / u)) - x / u\<bar> * u"
  proof -
    have "round_double x - x = (of_int (round_half_even (x / u)) - x / u) * u"
      using u by (simp add: rd left_diff_distrib)
    then show ?thesis using u by (simp add: abs_mult)
  qed
  also have "\<dots> \<le> (1 / 2) * u"
    using round_half_even_error[of "x / u"] u by (intro mult_right_mono) simp_all
  also have "\<dots> \<le> \<bar>x\<bar> / 2 ^ 53 + 1 / 2 ^ 1075"
  proof (cases "- 1022 \<le> binade x")
    case True
    then have "p = binade x - 53 + 1" by (simp add: p_def)
    then have "u = 2 powi binade x / 2 ^ 53 * 2"
      unfolding u_def by (simp add: power_int_diff power_int_add)
    then have "(1 / 2) * u = 2 powi binade x / 2 ^ 53" by simp
    also have "\<dots> \<le> \<bar>x\<bar> / 2 ^ 53" using binade_le[OF False] by (simp add: divide_right_mono)
    finally show ?thesis by simp
  next
    case False
    then have "p = - 1074" by (simp add: p_def)
    then have "u = 1 / 2 ^ 1074" unfolding u_def by (simp add: power_int_minus inverse_eq_divide)
    then have "(1 / 2) * u = 1 / 2 ^ 1075" by simp
    then show ?thesis by simp
  qed
  finally show ?thesis .
qed

lemma round_double_nonneg: "0 \<le> x \<Longrightarrow> 0 \<le> round_double x"
  unfolding round_double_def Let_def
  by (intro mult_nonneg_nonneg) (simp_all add: round_half_even_nonneg)

lemma power_int_le_one_exponent:
  assumes "(2::rat) powi e \<le> 1"
  shows "e \<le> 0"
proof (rule ccontr)
  assume "\<not> e \<le> 0"
  then have e: "0 < e" by simp
  then have "(2::rat) powi e = 2 ^ nat e" by (simp add: power_int_def)
  moreover have "(2::rat) ^ 1 \<le> 2 ^ nat e" using e by (intro power_increasing) simp_all
  ultimately show False using assms by simp
qed

lemma round_double_le_one:
  assumes "x \<le> 1"
  shows "round_double x \<le> 1"
proof -
  define p where "p = max (binade x) (- 1022) - 52"
  define u :: rat where "u = 2 powi p"
  have u: "0 < u" by (simp add: u_def)
  have rd: "round_double x = of_int (round_half_even (x / u)) * u"
    by (simp add: round_double_def p_def u_def Let_def)
  show ?thesis
  proof (cases "0 < x")
    case False
    then have "x / u \<le> of_int 0" using u by (simp add: divide_le_0_iff)
    then have "round_half_even (x / u) \<le> 0" by (rule round_half_even_mono_int)
    then have "(of_int (round_half_even (x / u)) :: rat) \<le> 0" by simp
    then have "round_double x \<le> 0" unfolding rd using u by (simp add: mult_le_0_iff)
    then show ?thesis by simp
  next
    case True
    then have "x \<noteq> 0" by simp
    then have "(2::rat) powi binade x \<le> 1" using binade_le[of x] assms True by simp
    then have "binade x \<le> 0" by (rule power_int_le_one_exponent)
    then have p: "p < 0" by (simp add: p_def)
    define k where "k = nat (- p)"
    have uk: "u = 1 / 2 ^ k" unfolding u_def k_def using p by (simp add: power_int_def inverse_eq_divide power_one_over)
    have "x / u = x * 2 ^ k" by (simp add: uk)
    also have "\<dots> \<le> 1 * 2 ^ k" using assms by (intro mult_right_mono) simp_all
    also have "\<dots> = of_int (2 ^ k)" by simp
    finally have "round_half_even (x / u) \<le> 2 ^ k" by (rule round_half_even_mono_int)
    then have "(of_int (round_half_even (x / u)) :: rat) \<le> of_int (2 ^ k)" by (simp only: of_int_le_iff)
    then have "round_double x \<le> of_int (2 ^ k) * u" unfolding rd using u by (intro mult_right_mono) simp_all
    also have "\<dots> = 1" by (simp add: uk)
    finally show ?thesis .
  qed
qed

section \<open>Properties of the score tables\<close>

lemma update_absent: "k \<notin> fst ` set al \<Longrightarrow> AList.update k v al = al @ [(k, v)]"
  by (induction al) auto

lemma score_loop_zero: "score_loop d 0 acc = (if d = [] then Inr acc else Inl ZeroDivisionError)"
  by (cases d) (auto simp: truediv_def)

lemma score_loop_distinct:
  "n \<noteq> 0 \<Longrightarrow> distinct (map fst d) \<Longrightarrow> fst ` set d \<inter> fst ` set acc = {} \<Longrightarrow>
   score_loop d n acc
     = Inr (acc @ map (\<lambda>(dev, files). (dev, round_double (of_nat (length files) / of_int n))) d)"
proof (induction d arbitrary: acc)
  case Nil
  then show ?case by simp
next
  case (Cons p d)
  obtain dev files where p: "p = (dev, files)" by (cases p)
  have a: "dev \<notin> fst ` set acc" using Cons.prems(3) p by auto
  let ?acc = "acc @ [(dev, round_double (of_nat (length files) / of_int n))]"
  have "fst ` set d \<inter> fst ` set ?acc = {}"
    using Cons.prems(2,3) p by (auto simp: image_iff)
  then have "score_loop d n ?acc
          = Inr (?acc @ map (\<lambda>(dev, files). (dev, round_double (of_nat (length files) / of_int n))) d)"
    using Cons.prems(1,2) by (intro Cons.IH) auto
  then show ?case using Cons.prems(1) p a by (simp add: update_absent truediv_def)
qed

lemma fold_append_invariant:
  assumes "P acc" "\<And>x a. P a \<Longrightarrow> P (f x a)"
  shows "P (fold f xs acc)"
  using assms(1) by (induction xs arbitrary: acc) (simp_all add: assms(2))

lemma rare_ok_append: "rare_ok d \<Longrightarrow> rare_ok (AList.update_with_aux [] k (\<lambda>l. l @ [f]) d)"
  unfolding rare_ok_def
  by (auto simp: AList.set_update_with_aux)

lemma rare_ok_rare_files_of: "rare_ok (rare_files_of d)"
  unfolding rare_files_of_def
proof (rule fold_append_invariant)
  show "rare_ok []" by (simp add: rare_ok_def)
next
  fix x :: "string \<times> string list" and a
  assume "rare_ok a"
  then show "rare_ok ((case x of (f, devs) \<Rightarrow> \<lambda>acc.
               if length devs = 1 then AList.update_with_aux [] (hd devs) (\<lambda>l. l @ [f]) acc
               else acc) a)"
    by (cases x) (simp add: rare_ok_append)
qed

lemma total_files_zero:
  assumes "rare_ok d" "total_files d = 0"
  shows "d = []"
proof (cases d)
  case Nil
  then show ?thesis .
next
  case (Cons p d')
  obtain dev files where p: "p = (dev, files)" by (cases p)
  have "files \<noteq> []" using assms(1) Cons p by (auto simp: rare_ok_def)
  then have "0 < int (length files)" by simp
  moreover have "total_files d = int (length files) + total_files d'"
    using Cons p by (simp add: total_files_def)
  moreover have "0 \<le> total_files d'" by (simp add: total_files_def)
  ultimately have "0 < total_files d" by linarith
  with assms(2) show ?thesis by simp
qed

lemma sum_scores:
  assumes "0 < n"
  shows "\<bar>sum_list (map snd (map (\<lambda>(dev, files). (dev, round_double (of_nat (length files) / of_int n))) d))
            - of_int (total_files d) / of_int n\<bar>
         \<le> (of_int (total_files d) / of_int n) / 2 ^ 53 + of_nat (length d) / 2 ^ 1075"
proof (induction d)
  case Nil
  then show ?case by (simp add: total_files_def)
next
  case (Cons p d)
  obtain dev files where p: "p = (dev, files)" by (cases p)
  define q :: rat where "q = of_nat (length files) / of_int n"
  define S where "S = sum_list (map snd (map (\<lambda>(dev, files).
                        (dev, round_double (of_nat (length files) / of_int n))) d))"
  define T :: rat where "T = of_int (total_files d) / of_int n"
  have q0: "0 \<le> q" using assms by (simp add: q_def)
  have 1: "\<bar>round_double q - q\<bar> \<le> q / 2 ^ 53 + 1 / 2 ^ 1075"
    using round_double_error[of q] q0 by simp
  have 2: "\<bar>S - T\<bar> \<le> T / 2 ^ 53 + of_nat (length d) / 2 ^ 1075"
    using Cons.IH by (simp add: S_def T_def)
  have tot: "of_int (total_files (p # d)) / of_int n = q + T"
    by (simp add: p total_files_def q_def T_def add_divide_distrib)
  have sm: "sum_list (map snd (map (\<lambda>(dev, files).
              (dev, round_double (of_nat (length files) / of_int n))) (p # d))) = round_double q + S"
    by (simp add: p q_def S_def)
  have "\<bar>(round_double q + S) - (q + T)\<bar> \<le> \<bar>round_double q - q\<bar> + \<bar>S - T\<bar>" by linarith
  also have "\<dots> \<le> (q / 2 ^ 53 + 1 / 2 ^ 1075) + (T / 2 ^ 53 + of_nat (length d) / 2 ^ 1075)"
    using 1 2 by linarith
  also have "\<dots> = (q + T) / 2 ^ 53 + of_nat (length (p # d)) / 2 ^ 1075"
    by (simp add: add_divide_distrib)
  finally show ?case unfolding tot sm .
qed

lemma num_rare_files_window:
  assumes "coherent s" "get_num_rare_files s = Inr (n, s1)"
  shows "\<exists>d. window_rare_files s = Inr d \<and> n = total_files d \<and> rare_ok d
             \<and> get_dev_to_rare_files s = Inr (d, s1)"
proof -
  obtain d where d: "get_dev_to_rare_files s = Inr (d, s1)" and n: "n = total_files d"
    using assms(2) by (auto simp: get_num_rare_files_def total_files_def split: sum.splits)
  have w: "window_rare_files s = Inr d"
    using get_dev_to_rare_files_agrees[OF assms(1)] d
    by (cases "window_rare_files s") (auto simp: agrees_def)
  then have "rare_ok d"
    using rare_ok_rare_files_of by (auto simp: window_rare_files_def split: sum.splits)
  with d n w show ?thesis by blast
qed

subsection \<open>Claim C8: the maven scores sum to one up to rounding\<close>

text \<open>
  Claim C8 (as amended). In every reachable state in which the total number of rare
  files is greater than zero, the table \<open>dev_to_mavenness\<close> that \<open>get_mavens\<close>
  builds before \<open>_sort_and_filter\<close> gives every developer with rare files the double
  nearest to the number of these files divided by the total number of rare files, and
  the scores of the table sum to 1 up to the rounding of the divisions: the sum differs
  from 1 by at most \<open>2 ^ -53\<close>, plus \<open>2 ^ -1075\<close> for every entry of the table (the
  rounding error of a quotient below the normal range of the doubles).
\<close>

theorem maven_scores_sum_to_one_up_to_rounding:
  assumes "reachable s" and "get_num_rare_files s = Inr (n, s1)" and "n > 0"
  shows "\<exists>d table s2.
           get_dev_to_rare_files s = Inr (d, s1)
         \<and> dev_to_mavenness s = Inr (table, s2)
         \<and> table = map (\<lambda>(dev, files). (dev, round_double (of_nat (length files) / of_int n))) d
         \<and> \<bar>sum_list (map snd table) - 1\<bar> \<le> 1 / 2 ^ 53 + of_nat (length table) / 2 ^ 1075"
proof -
  have co: "coherent s" using assms(1) by (rule reachable_coherent)
  obtain d where w: "window_rare_files s = Inr d" and n: "n = total_files d"
    and ok: "rare_ok d" and g: "get_dev_to_rare_files s = Inr (d, s1)"
    using num_rare_files_window[OF co assms(2)] by blast
  define table where
    "table = map (\<lambda>(dev, files). (dev, round_double (of_nat (length files) / of_int n))) d"
  have n0: "n \<noteq> 0" using assms(3) by simp
  have "score_loop d n [] = Inr ([] @ table)"
    unfolding table_def using ok n0 by (intro score_loop_distinct) (auto simp: rare_ok_def)
  then have "agrees (dev_to_mavenness s) (Inr table) s"
    using dev_to_mavenness_agrees[OF co] w n by simp
  then obtain s2 where s2: "dev_to_mavenness s = Inr (table, s2)"
    by (auto simp: agrees_def)
  have one: "of_int (total_files d) / (of_int n :: rat) = 1" using n n0 by simp
  have len: "length table = length d" by (simp add: table_def)
  have "\<bar>sum_list (map snd table) - 1\<bar> \<le> 1 / 2 ^ 53 + of_nat (length table) / 2 ^ 1075"
    using sum_scores[OF assms(3), of d] unfolding one len table_def[symmetric] by simp
  with g s2 table_def show ?thesis by blast
qed

subsection \<open>Claim C9: no rare files, no mavens\<close>

text \<open>
  Claim C9. In every reachable state in which the number of rare files is zero,
  \<open>get_mavens\<close> returns the empty table; in particular it does not raise
  \<open>ZeroDivisionError\<close>: with no rare file the table of rare files has no entry, so
  the loop that divides is not entered.
\<close>

theorem no_rare_files_no_mavens:
  assumes "reachable s" and "get_num_rare_files s = Inr (0, s1)"
  shows "\<exists>s2. get_mavens s = Inr ([], s2)"
proof -
  have co: "coherent s" using assms(1) by (rule reachable_coherent)
  obtain d where w: "window_rare_files s = Inr d" and n: "0 = total_files d"
    and ok: "rare_ok d"
    using num_rare_files_window[OF co assms(2)] by blast
  have "d = []" using ok n by (intro total_files_zero) simp_all
  then have "window_mavens s = Inr []"
    using w by (simp add: window_mavens_def sort_and_filter_def)
  then show ?thesis using get_mavens_agrees[OF co] by (auto simp: agrees_def)
qed

lemma init_state_reachable:
  assumes "\<not> isl (HistoryGraph_init js days limit files_limit threshold)"
  shows "reachable (projr (HistoryGraph_init js days limit files_limit threshold))"
  using assms by (intro reachable.init[of js days limit files_limit threshold]) simp

text \<open>Claim C8 at the history graph over the ordered dataset: each of the two developers
  reaches one file alone, and one half is a double.\<close>

theorem maven_scores_sum_to_one_up_to_rounding_witness:
  "reachable whole_range_state
   \<and> map_sum id fst (get_num_rare_files whole_range_state) = Inr 2
   \<and> map_sum id fst (dev_to_mavenness whole_range_state) = Inr [(''d1'', 1 / 2), (''d2'', 1 / 2)]
   \<and> \<bar>sum_list (map snd (fst (projr (dev_to_mavenness whole_range_state)))) - 1\<bar>
       \<le> 1 / 2 ^ 53 + 2 / 2 ^ 1075"
proof -
  have r: "reachable whole_range_state"
    unfolding whole_range_state_def by (rule init_state_reachable) code_simp
  have "map_sum id fst (get_num_rare_files whole_range_state) = Inr 2" by code_simp
  then obtain s1 where n: "get_num_rare_files whole_range_state = Inr (2, s1)"
    by (cases "get_num_rare_files whole_range_state") auto
  have d: "map_sum id fst (get_dev_to_rare_files whole_range_state) = Inr [(''d1'', [''F1'']), (''d2'', [''F2''])]"
    by code_simp
  have h: "round_double (1 / 2) = 1 / 2" by code_simp
  from maven_scores_sum_to_one_up_to_rounding[OF r n] d n h show ?thesis using r by auto
qed

text \<open>
  Claim C8 as stated: the sum is not exactly 1. Each of six developers reaches one
  file alone; every score is the double nearest to one sixth, which is below one
  sixth, and the six scores sum to \<open>1 - 2 ^ -54\<close>.
\<close>

theorem maven_scores_six_developers_counterexample:
  "reachable six_developer_state
   \<and> map_sum id fst (get_num_rare_files six_developer_state) = Inr 6
   \<and> map_sum id fst (dev_to_mavenness six_developer_state)
       = Inr [(''d1'', 6004799503160661 / 2 ^ 55), (''d2'', 6004799503160661 / 2 ^ 55),
              (''d3'', 6004799503160661 / 2 ^ 55), (''d4'', 6004799503160661 / 2 ^ 55),
              (''d5'', 6004799503160661 / 2 ^ 55), (''d6'', 6004799503160661 / 2 ^ 55)]
   \<and> sum_list (map snd (fst (projr (dev_to_mavenness six_developer_state)))) = 1 - 1 / 2 ^ 54
   \<and> sum_list (map snd (fst (projr (dev_to_mavenness six_developer_state)))) \<noteq> 1"
proof -
  have r: "reachable six_developer_state"
    unfolding six_developer_state_def by (rule init_state_reachable) code_simp
  have n: "map_sum id fst (get_num_rare_files six_developer_state) = Inr 6" by code_simp
  have t: "map_sum id fst (dev_to_mavenness six_developer_state)
       = Inr [(''d1'', 6004799503160661 / 2 ^ 55), (''d2'', 6004799503160661 / 2 ^ 55),
              (''d3'', 6004799503160661 / 2 ^ 55), (''d4'', 6004799503160661 / 2 ^ 55),
              (''d5'', 6004799503160661 / 2 ^ 55), (''d6'', 6004799503160661 / 2 ^ 55)]"
    by code_simp
  have s: "sum_list (map snd (fst (projr (dev_to_mavenness six_developer_state)))) = 1 - 1 / 2 ^ 54"
    by code_simp
  then have "sum_list (map snd (fst (projr (dev_to_mavenness six_developer_state)))) \<noteq> 1"
    by simp
  with r n t s show ?thesis by blast
qed

text \<open>Claim C9 at the history graph of two developers who reach the same file.\<close>

theorem no_rare_files_no_mavens_witness:
  "reachable shared_file_state
   \<and> map_sum id fst (get_num_rare_files shared_file_state) = Inr 0
   \<and> map_sum id fst (get_mavens shared_file_state) = Inr []"
proof -
  have r: "reachable shared_file_state"
    unfolding shared_file_state_def by (rule init_state_reachable) code_simp
  have "map_sum id fst (get_num_rare_files shared_file_state) = Inr 0" by code_simp
  then obtain s1 where n: "get_num_rare_files shared_file_state = Inr (0, s1)"
    by (cases "get_num_rare_files shared_file_state") auto
  from no_rare_files_no_mavens[OF r n] n show ?thesis using r by auto
qed

lemma files_of_kind:
  "map_of (node_kinds_of (G s)) f = Some ''File'' \<Longrightarrow> f \<in> set (get_files s)"
proof -
  assume "map_of (node_kinds_of (G s)) f = Some ''File''"
  then have "(f, ''File'') \<in> set (node_kinds_of (G s))" by (rule map_of_SomeD)
  then have "(f, Some ''File'') \<in> set (nodes (G s))" by (simp add: set_node_kinds_of)
  then show ?thesis by (force simp: get_files_def filter_nodes_by_kind_def)
qed

lemma bounded_length:
  assumes "distinct xs" "set xs \<subseteq> set ys"
  shows "length xs \<le> length ys"
proof -
  have "length xs = card (set xs)" using assms(1) by (simp add: distinct_card)
  also have "\<dots> \<le> card (set ys)" using assms(2) by (simp add: card_mono)
  also have "\<dots> \<le> length ys" by (rule card_length)
  finally show ?thesis .
qed

lemma reachable_files_table_ok:
  "valid_state s \<Longrightarrow> set devs \<subseteq> node_set (G s) \<Longrightarrow> distinct devs \<Longrightarrow>
   set devs \<inter> fst ` set acc = {} \<Longrightarrow>
   \<exists>t. reachable_files_table s (node_kinds_of (G s)) devs acc = Inr (acc @ t)
        \<and> map fst t = devs \<and> (\<forall>p \<in> set t. length (snd p) \<le> length (get_files s))"
proof (induction devs arbitrary: acc)
  case Nil
  then show ?case by simp
next
  case (Cons dev devs)
  have hn: "has_node (G s) dev" using Cons.prems(2) by (simp add: has_node_def node_set_def)
  obtain r where r: "find_reachable_loop s (node_kinds_of (G s)) [dev] []
                       [(dev, 0, neighbors (G s) dev)] = Inr r"
    and dr: "distinct r" and fr: "\<forall>f \<in> set r. map_of (node_kinds_of (G s)) f = Some ''File''"
    using find_reachable_loop_ok[OF Cons.prems(1) refl, of "[(dev, 0, neighbors (G s) dev)]" "[]" "[dev]"]
    by auto
  have "set r \<subseteq> set (get_files s)" using fr files_of_kind by blast
  then have len: "length r \<le> length (get_files s)" using dr by (intro bounded_length)
  have a: "dev \<notin> fst ` set acc" using Cons.prems(4) by auto
  then have upd: "AList.update dev r acc = acc @ [(dev, r)]" by (rule update_absent)
  have "set devs \<inter> fst ` set (acc @ [(dev, r)]) = {}" using Cons.prems(3,4) by auto
  then obtain t where t: "reachable_files_table s (node_kinds_of (G s)) devs (acc @ [(dev, r)])
                            = Inr ((acc @ [(dev, r)]) @ t)"
    and mt: "map fst t = devs" and bt: "\<forall>p \<in> set t. length (snd p) \<le> length (get_files s)"
    using Cons.IH[of "acc @ [(dev, r)]"] Cons.prems by auto
  have 1: "reachable_files_table s (node_kinds_of (G s)) (dev # devs) acc = Inr (acc @ ((dev, r) # t))"
    using hn r upd t by simp
  have 2: "map fst ((dev, r) # t) = dev # devs" using mt by simp
  have 3: "\<forall>p \<in> set ((dev, r) # t). length (snd p) \<le> length (get_files s)"
    using bt len by simp
  show ?case by (rule exI[of _ "(dev, r) # t"]) (use 1 2 3 in blast)
qed

lemma distinct_filter_nodes_by_kind:
  "distinct (node_names g) \<Longrightarrow> distinct (filter_nodes_by_kind g k)"
  unfolding filter_nodes_by_kind_def node_names_def by (rule distinct_map_filter)

lemma filter_nodes_by_kind_subset: "set (filter_nodes_by_kind g k) \<subseteq> node_set g"
  by (auto simp: filter_nodes_by_kind_def node_set_def node_names_def)

lemma window_reachable_files_ok:
  assumes "valid_state s"
  shows "\<exists>t. window_reachable_files s = Inr t \<and> map fst t = get_developers s
             \<and> (\<forall>p \<in> set t. length (snd p) \<le> length (get_files s))"
proof -
  have "distinct (get_developers s)"
    using assms by (simp add: get_developers_def distinct_filter_nodes_by_kind valid_state_def tidy_graph_def)
  moreover have "set (get_developers s) \<subseteq> node_set (G s)"
    by (simp add: get_developers_def filter_nodes_by_kind_subset)
  ultimately show ?thesis
    using reachable_files_table_ok[OF assms, of "get_developers s" "[]"]
    by (simp add: window_reachable_files_def)
qed

lemma set_sort_and_filter: "set (sort_and_filter threshold d) \<subseteq> set d"
proof
  fix p assume "p \<in> set (sort_and_filter threshold d)"
  then obtain k where k: "k \<in> fst ` set d" "p = (k, the (map_of d k))"
    by (auto simp: sort_and_filter_def)
  then obtain v where "map_of d k = Some v" by (metis domD dom_map_of_conv_image_fst)
  then show "p \<in> set d" using k by (auto dest: map_of_SomeD)
qed

subsection \<open>Claim C10: the jack scores\<close>

text \<open>
  Claim C10 (as amended). In every reachable state whose project-file-count baseline is
  positive, the computation of the jack scores does not fail: the unfiltered table
  \<open>dev_to_file_coverage\<close> has one score for every developer of the graph, every
  score is at least 0, and \<open>get_jacks\<close> returns entries of that table. When the
  baseline is moreover at least the number of File nodes of the graph, every score is
  at most 1.
\<close>

theorem jack_scores_in_unit_interval:
  assumes "reachable s" and "0 < get_num_files s"
  shows "\<exists>cov s1 table s2.
           dev_to_file_coverage s = Inr (cov, s1)
         \<and> map fst cov = get_developers s
         \<and> (\<forall>p \<in> set cov. 0 \<le> snd p
               \<and> (int (length (get_files s)) \<le> get_num_files s \<longrightarrow> snd p \<le> 1))
         \<and> get_jacks s = Inr (table, s2)
         \<and> set table \<subseteq> set cov"
proof -
  have co: "coherent s" using assms(1) by (rule reachable_coherent)
  have v: "valid_state s" using assms(1) by (rule reachable_valid)
  define n where "n = get_num_files s"
  obtain t where t: "window_reachable_files s = Inr t" and mt: "map fst t = get_developers s"
    and bt: "\<forall>p \<in> set t. length (snd p) \<le> length (get_files s)"
    using window_reachable_files_ok[OF v] by blast
  define cov where
    "cov = map (\<lambda>(dev, files). (dev, round_double (of_nat (length files) / of_int n))) t"
  have dt: "distinct (map fst t)"
    unfolding mt using v
    by (simp add: get_developers_def distinct_filter_nodes_by_kind valid_state_def tidy_graph_def)
  have n0: "n \<noteq> 0" "0 < n" using assms(2) by (simp_all add: n_def)
  have sl: "score_loop t n [] = Inr cov"
    using score_loop_distinct[OF n0(1) dt, of "[]"] by (simp add: cov_def)
  then have "agrees (dev_to_file_coverage s) (Inr cov) s"
    using dev_to_file_coverage_agrees[OF co] t by (simp add: n_def)
  then obtain s1 where s1: "dev_to_file_coverage s = Inr (cov, s1)" by (auto simp: agrees_def)
  have "window_jacks s = Inr (sort_and_filter (score_threshold s) cov)"
    using t sl by (simp add: window_jacks_def n_def)
  then obtain s2 where s2: "get_jacks s = Inr (sort_and_filter (score_threshold s) cov, s2)"
    using get_jacks_agrees[OF co] by (auto simp: agrees_def)
  have keys: "map fst cov = get_developers s" using mt by (simp add: cov_def comp_def case_prod_unfold)
  have rng: "\<forall>p \<in> set cov. 0 \<le> snd p \<and> (int (length (get_files s)) \<le> n \<longrightarrow> snd p \<le> 1)"
  proof
    fix p assume "p \<in> set cov"
    then obtain dev files where q: "(dev, files) \<in> set t"
      and p: "p = (dev, round_double (of_nat (length files) / of_int n))"
      by (auto simp: cov_def)
    have len: "length files \<le> length (get_files s)" using bt q by auto
    have "(0::rat) \<le> of_nat (length files) / of_int n" using n0(2) by simp
    then have 1: "0 \<le> snd p" using p by (simp add: round_double_nonneg)
    have 2: "snd p \<le> 1" if "int (length (get_files s)) \<le> n"
    proof -
      have "int (length files) \<le> n" using len that by linarith
      then have "(of_nat (length files) :: rat) \<le> of_int n"
        by (metis of_int_le_iff of_int_of_nat_eq)
      then have "(of_nat (length files) :: rat) / of_int n \<le> 1"
        using n0(2) by (simp add: divide_le_eq_1)
      then show ?thesis using p by (simp add: round_double_le_one)
    qed
    from 1 2 show "0 \<le> snd p \<and> (int (length (get_files s)) \<le> n \<longrightarrow> snd p \<le> 1)" by blast
  qed
  show ?thesis
    using s1 keys rng s2 set_sort_and_filter[of "score_threshold s" cov] unfolding n_def by blast
qed

text \<open>The theorem at the history graph over the ordered dataset: two files, a baseline
  of two.\<close>

theorem jack_scores_in_unit_interval_witness:
  "reachable whole_range_state \<and> 0 < get_num_files whole_range_state
   \<and> int (length (get_files whole_range_state)) \<le> get_num_files whole_range_state
   \<and> map_sum id fst (dev_to_file_coverage whole_range_state) = Inr [(''d1'', 1 / 2), (''d2'', 1 / 2)]
   \<and> (\<exists>cov s1 table s2.
           dev_to_file_coverage whole_range_state = Inr (cov, s1)
         \<and> map fst cov = get_developers whole_range_state
         \<and> get_jacks whole_range_state = Inr (table, s2)
         \<and> set table \<subseteq> set cov)"
proof -
  have r: "reachable whole_range_state"
    unfolding whole_range_state_def by (rule init_state_reachable) code_simp
  have n: "0 < get_num_files whole_range_state" by code_simp
  have c: "map_sum id fst (dev_to_file_coverage whole_range_state) = Inr [(''d1'', 1 / 2), (''d2'', 1 / 2)]"
    by code_simp
  have f: "int (length (get_files whole_range_state)) \<le> get_num_files whole_range_state"
    by code_simp
  from jack_scores_in_unit_interval[OF r n] r n c f show ?thesis by blast
qed

text \<open>
  Claim C10 as stated holds at every window position. After a commit that deletes the
  last file of the project the baseline is 0 while both developers are still in the
  graph, and \<open>get_jacks\<close> raises \<open>ZeroDivisionError\<close>.
\<close>

theorem jack_scores_zero_baseline_counterexample:
  "reachable zero_baseline_state
   \<and> get_developers zero_baseline_state = [''d1'', ''d2'']
   \<and> get_num_files zero_baseline_state = 0
   \<and> map_sum id fst (get_jacks zero_baseline_state) = Inl ZeroDivisionError"
proof -
  have r: "reachable zero_baseline_state"
    unfolding zero_baseline_state_def by (rule init_state_reachable) code_simp
  have "get_developers zero_baseline_state = [''d1'', ''d2'']" by code_simp
  moreover have "get_num_files zero_baseline_state = 0" by code_simp
  moreover have "map_sum id fst (get_jacks zero_baseline_state) = Inl ZeroDivisionError" by code_simp
  ultimately show ?thesis using r by blast
qed

section \<open>The incremental update against the rebuilt graph\<close>

subsection \<open>The timeline of a constructed window manager\<close>

lemma load_change_sets_total:
  "group_by_date d js = Inr d' \<Longrightarrow> \<exists>css. load_change_sets js = Inr css \<and> d' = bucket d css"
  by (auto simp: group_by_date_bucket split: sum.splits)

lemma keys_fill_blanks_snd:
  "\<forall>k \<in> fst ` set d. snd k = time_max \<Longrightarrow> snd dt = time_max \<Longrightarrow>
   \<forall>k \<in> fst ` set (fill_blanks d dt l). snd k = time_max"
proof (induction d dt l rule: fill_blanks.induct)
  case (1 d dt l)
  show ?case
  proof (cases "dt < l")
    case True
    have a: "\<forall>k \<in> fst ` set (AList.update_with_aux [] dt (\<lambda>l. l) d). snd k = time_max"
      using "1.prems" by (auto simp: AList.dom_update_with_aux)
    have b: "snd (add_days dt 1) = time_max" using "1.prems"(2) by (simp add: add_days_def)
    have "fill_blanks d dt l
            = fill_blanks (AList.update_with_aux [] dt (\<lambda>l. l) d) (add_days dt 1) l"
      using True by (subst fill_blanks.simps) simp
    then show ?thesis using "1.IH"[OF True a b] by (simp only:)
  next
    case False
    then have "fill_blanks d dt l = d" by (subst fill_blanks.simps) simp
    then show ?thesis using "1.prems"(1) by (simp only:)
  qed
qed

lemma generate_keys:
  assumes "generate_date_to_change_sets js = Inr d"
  shows "sorted_wrt (<) (map fst d) \<and> (\<forall>k \<in> fst ` set d. snd k = time_max)"
proof -
  obtain d0 where g: "group_by_date [] js = Inr d0" and ne: "map fst d0 \<noteq> []"
    and d: "d = sort_dict (fill_blanks d0 (hd (map fst d0)) (last (map fst d0)))"
    using assms by (auto simp: generate_date_to_change_sets_def Let_def split: sum.splits if_splits)
  obtain css where css: "load_change_sets js = Inr css" and d0: "d0 = bucket [] css"
    using load_change_sets_total[OF g] by blast
  let ?d1 = "fill_blanks d0 (hd (map fst d0)) (last (map fst d0))"
  have k0: "\<forall>k \<in> fst ` set d0. snd k = time_max"
  proof
    fix k assume "k \<in> fst ` set d0"
    then have "k \<in> date ` set css" unfolding d0 set_keys_bucket by simp
    then have "k \<in> set (map date css)" by simp
    then have "k \<in> set (map (\<lambda>j. max_of_day (j_date j)) js)"
      using load_change_sets_dates[OF css] by simp
    then show "snd k = time_max" by (auto simp: max_of_day_def)
  qed
  have "hd (map fst d0) \<in> set (map fst d0)" using ne by (rule hd_in_set)
  then have "hd (map fst d0) \<in> fst ` set d0" by simp
  then have "snd (hd (map fst d0)) = time_max" using k0 by blast
  then have k1: "\<forall>k \<in> fst ` set ?d1. snd k = time_max"
    by (rule keys_fill_blanks_snd[OF k0])
  have "distinct (map fst d0)" unfolding d0 by (simp add: distinct_bucket)
  then have "distinct (map fst ?d1)" by (simp only: distinct_fill_blanks)
  then have "sorted (sort (map fst ?d1)) \<and> distinct (sort (map fst ?d1))" by simp
  then have "sorted_wrt (<) (sort (map fst ?d1))" by (simp only: strict_sorted_iff)
  then have st: "sorted_wrt (<) (map fst d)" unfolding d keys_sort_dict .
  have "set (map fst d) = set (map fst ?d1)"
    unfolding d keys_sort_dict by simp
  then have "fst ` set d = fst ` set ?d1" by simp
  then show ?thesis using k1 st by simp
qed

subsection \<open>The window and its shift\<close>

lemma sorted_alist_split:
  assumes "sorted_wrt (<) (map fst d)" "(k, v) \<in> set d"
  shows "\<exists>xs ys. d = xs @ (k, v) # ys \<and> (\<forall>p \<in> set xs. fst p < k) \<and> (\<forall>p \<in> set ys. k < fst p)"
proof -
  obtain xs ys where d: "d = xs @ (k, v) # ys" using assms(2) by (meson split_list)
  have "(\<forall>p \<in> set xs. fst p < k) \<and> (\<forall>p \<in> set ys. k < fst p)"
    using assms(1) unfolding d by (auto simp: sorted_wrt_append)
  with d show ?thesis by blast
qed

lemma next_day_le:
  fixes f k :: datetime
  assumes "snd f = snd k"
  shows "add_days f 1 \<le> k \<longleftrightarrow> f < k"
  using assms by (cases f; cases k) (auto simp: add_days_def less_prod_def less_eq_prod_def)

lemma less_next_day:
  fixes l k :: datetime
  assumes "snd l = snd k"
  shows "k < add_days l 1 \<longleftrightarrow> k \<le> l"
  using assms by (cases l; cases k) (auto simp: add_days_def less_prod_def less_eq_prod_def)

lemma window_shift_linorder:
  fixes d :: "('k::linorder \<times> 'v) list"
  assumes s: "sorted_wrt (<) (map fst d)" and fl: "f \<le> l" and ll': "l < l'" and ff': "f < f'"
    and f'l': "f' \<le> l'"
    and nf: "\<forall>k \<in> fst ` set d. f < k \<longrightarrow> f' \<le> k"
    and nl: "\<forall>k \<in> fst ` set d. k < l' \<longrightarrow> k \<le> l"
    and rm: "map_of d f = Some rm" and ad: "map_of d l' = Some ad"
  shows "\<exists>A R B. d = A @ (f, rm) # R @ (l', ad) # B
           \<and> filter (\<lambda>p. f \<le> fst p \<and> fst p \<le> l) d = (f, rm) # R
           \<and> filter (\<lambda>p. f' \<le> fst p \<and> fst p \<le> l') d = R @ [(l', ad)]"
proof -
  have "(f, rm) \<in> set d" using rm by (rule map_of_SomeD)
  then obtain A Y where d: "d = A @ (f, rm) # Y" and A: "\<forall>p \<in> set A. fst p < f"
    and Y: "\<forall>p \<in> set Y. f < fst p"
    using sorted_alist_split[OF s] by blast
  have fl': "f < l'" using fl ll' by simp
  have "(l', ad) \<in> set d" using ad by (rule map_of_SomeD)
  moreover have "(l', ad) \<notin> set A"
  proof
    assume "(l', ad) \<in> set A"
    then have "l' < f" using A by force
    then show False using fl' by simp
  qed
  moreover have "(l', ad) \<noteq> (f, rm)" using fl' by auto
  ultimately have mem: "(l', ad) \<in> set Y" unfolding d by auto
  have sY: "sorted_wrt (<) (map fst Y)" using s unfolding d by (simp add: sorted_wrt_append)
  obtain R B where Yeq: "Y = R @ (l', ad) # B" and R: "\<forall>p \<in> set R. fst p < l'"
    and B: "\<forall>p \<in> set B. l' < fst p"
    using sorted_alist_split[OF sY mem] by blast
  have Rk: "fst p \<in> fst ` set d" if "p \<in> set R" for p using that unfolding d Yeq by force
  have RY: "f < fst p" if "p \<in> set R" for p using that Y unfolding Yeq by simp
  have R1: "f \<le> fst p \<and> fst p \<le> l" if "p \<in> set R" for p
  proof -
    have "f < fst p" using that by (rule RY)
    moreover have "fst p < l'" using R that by simp
    then have "fst p \<le> l" using nl Rk[OF that] by blast
    ultimately show ?thesis by simp
  qed
  have R2: "f' \<le> fst p \<and> fst p \<le> l'" if "p \<in> set R" for p
  proof -
    have "f < fst p" using that by (rule RY)
    then have "f' \<le> fst p" using nf Rk[OF that] by blast
    moreover have "fst p < l'" using R that by simp
    ultimately show ?thesis by simp
  qed
  have A1: "\<not> (f \<le> fst p \<and> fst p \<le> l)" if "p \<in> set A" for p
  proof -
    have "fst p < f" using A that by simp
    then have "\<not> f \<le> fst p" by (simp add: not_le)
    then show ?thesis by simp
  qed
  have A2: "\<not> (f' \<le> fst p \<and> fst p \<le> l')" if "p \<in> set A" for p
  proof -
    have "fst p < f" using A that by simp
    then have "fst p < f'" using ff' by (rule less_trans)
    then have "\<not> f' \<le> fst p" by (simp add: not_le)
    then show ?thesis by simp
  qed
  have B1: "\<not> (f \<le> fst p \<and> fst p \<le> l)" if "p \<in> set B" for p
  proof -
    have "l' < fst p" using B that by simp
    then have "l < fst p" using ll' by (rule less_trans[rotated])
    then have "\<not> fst p \<le> l" by (simp add: not_le)
    then show ?thesis by simp
  qed
  have B2: "\<not> (f' \<le> fst p \<and> fst p \<le> l')" if "p \<in> set B" for p
  proof -
    have "l' < fst p" using B that by simp
    then have "\<not> fst p \<le> l'" by (simp add: not_le)
    then show ?thesis by simp
  qed
  have fA1: "filter (\<lambda>p. f \<le> fst p \<and> fst p \<le> l) A = []" using A1 by (simp add: filter_empty_conv)
  have fA2: "filter (\<lambda>p. f' \<le> fst p \<and> fst p \<le> l') A = []" using A2 by (simp add: filter_empty_conv)
  have fB1: "filter (\<lambda>p. f \<le> fst p \<and> fst p \<le> l) B = []" using B1 by (simp add: filter_empty_conv)
  have fB2: "filter (\<lambda>p. f' \<le> fst p \<and> fst p \<le> l') B = []" using B2 by (simp add: filter_empty_conv)
  have fR1: "filter (\<lambda>p. f \<le> fst p \<and> fst p \<le> l) R = R" using R1 by (simp add: filter_id_conv)
  have fR2: "filter (\<lambda>p. f' \<le> fst p \<and> fst p \<le> l') R = R" using R2 by (simp add: filter_id_conv)
  have n1: "\<not> f' \<le> f" using ff' by simp
  have n2: "\<not> l' \<le> l" using ll' by simp
  have 1: "filter (\<lambda>p. f \<le> fst p \<and> fst p \<le> l) d = (f, rm) # R"
    unfolding d Yeq by (simp add: fA1 fB1 fR1 fl n2)
  have 2: "filter (\<lambda>p. f' \<le> fst p \<and> fst p \<le> l') d = R @ [(l', ad)]"
    unfolding d Yeq by (simp add: fA2 fB2 fR2 f'l' n1)
  have "d = A @ (f, rm) # R @ (l', ad) # B" unfolding d Yeq by simp
  with 1 2 show ?thesis by blast
qed

lemma window_shift:
  fixes d :: timeline
  assumes s: "sorted_wrt (<) (map fst d)" and t: "\<forall>k \<in> fst ` set d. snd k = time_max"
    and f: "snd f = time_max" and l: "snd l = time_max" and fl: "f \<le> l"
    and rm: "map_of d f = Some rm" and ad: "map_of d (add_days l 1) = Some ad"
  shows "\<exists>A R B. d = A @ (f, rm) # R @ (add_days l 1, ad) # B
           \<and> filter (\<lambda>p. f \<le> fst p \<and> fst p \<le> l) d = (f, rm) # R
           \<and> filter (\<lambda>p. add_days f 1 \<le> fst p \<and> fst p \<le> add_days l 1) d = R @ [(add_days l 1, ad)]"
proof (rule window_shift_linorder[OF s fl _ _ _ _ _ rm ad])
  show "l < add_days l 1" using less_next_day[of l l] by simp
  show "f < add_days f 1" using less_next_day[of f f] by simp
  show "add_days f 1 \<le> add_days l 1"
    using fl by (cases f; cases l) (auto simp: add_days_def less_eq_prod_def)
  show "\<forall>k \<in> fst ` set d. f < k \<longrightarrow> add_days f 1 \<le> k"
  proof
    fix k assume "k \<in> fst ` set d"
    then have "snd k = time_max" using t by blast
    then have "snd f = snd k" using f by simp
    then show "f < k \<longrightarrow> add_days f 1 \<le> k" using next_day_le[of f k] by simp
  qed
  show "\<forall>k \<in> fst ` set d. k < add_days l 1 \<longrightarrow> k \<le> l"
  proof
    fix k assume "k \<in> fst ` set d"
    then have "snd k = time_max" using t by blast
    then have "snd l = snd k" using l by simp
    then show "k < add_days l 1 \<longrightarrow> k \<le> l" using less_next_day[of l k] by simp
  qed
qed

lemma collect_window_filter:
  fixes d :: timeline
  shows "sorted_wrt (<) (map fst d) \<Longrightarrow>
     collect_window d l = concat (map snd (filter (\<lambda>p. fst p \<le> l) d))"
proof (induction d)
  case Nil
  then show ?case by simp
next
  case (Cons p d)
  obtain k css where p: "p = (k, css)" by (cases p)
  show ?case
  proof (cases "k > l")
    case True
    have "\<forall>q \<in> set d. k < fst q" using Cons.prems p by auto
    then have "\<not> fst q \<le> l" if "q \<in> set d" for q
    proof -
      have "k < fst q" using \<open>\<forall>q \<in> set d. k < fst q\<close> that by blast
      then have "l < fst q" using True by simp
      then show ?thesis by simp
    qed
    then have "filter (\<lambda>p. fst p \<le> l) d = []" by (simp add: filter_empty_conv)
    moreover have "\<not> k \<le> l" using True by simp
    ultimately show ?thesis using True p by simp
  next
    case False
    then have "k \<le> l" "\<not> l < k" by simp_all
    moreover have "sorted_wrt (<) (map fst d)" using Cons.prems by simp
    ultimately show ?thesis using Cons.IH p by simp
  qed
qed

subsection \<open>Edges and the commit ids they hold\<close>

lemma set_rename_fold:
  "set (fold (\<lambda>cc d. if change_type cc = ''RENAME''
                        then AList.update (old_file_path cc) (file_path cc) d else d) ccs acc)
     \<subseteq> set acc \<union> (\<lambda>cc. (old_file_path cc, file_path cc)) ` set ccs"
proof (induction ccs arbitrary: acc)
  case Nil
  then show ?case by simp
next
  case (Cons cc ccs)
  let ?acc = "if change_type cc = ''RENAME''
              then AList.update (old_file_path cc) (file_path cc) acc else acc"
  have "set ?acc \<subseteq> insert (old_file_path cc, file_path cc) (set acc)"
    using set_update_subset[of "old_file_path cc" "file_path cc" acc] by auto
  then show ?case using Cons.IH[of ?acc] by auto
qed

lemma files_rename_dict_entries:
  assumes "map_of (files_rename_dict cs) (Some x) = Some y"
  shows "x \<in> other_names cs \<and> y \<in> other_names cs"
proof -
  have "(Some x, y) \<in> set (files_rename_dict cs)" using assms by (rule map_of_SomeD)
  then have "(Some x, y) \<in> (\<lambda>cc. (old_file_path cc, file_path cc)) ` set (code_changes cs)"
    using set_rename_fold[of "code_changes cs" "[]"] unfolding files_rename_dict_def by auto
  then obtain cc where cc: "cc \<in> set (code_changes cs)" "old_file_path cc = Some x" "file_path cc = y"
    by auto
  have "Some x \<in> old_file_path ` set (code_changes cs)" using cc(1,2) by force
  moreover have "y \<in> file_path ` set (code_changes cs)" using cc(1,3) by force
  ultimately show ?thesis by (simp add: other_names_def)
qed

lemma mapping_get_separate:
  assumes "H \<inter> other_names cs = {}"
  shows "mapping_get (files_rename_dict cs) x \<in> H \<longleftrightarrow> x \<in> H"
proof (cases "map_of (files_rename_dict cs) (Some x)")
  case None
  then show ?thesis by (simp add: mapping_get_def)
next
  case (Some y)
  then have "x \<notin> H" "y \<notin> H" using files_rename_dict_entries[OF Some] assms by auto
  then show ?thesis using Some by (simp add: mapping_get_def)
qed

lemma image_separate:
  assumes "H \<inter> other_names cs = {}"
  shows "mapping_get (files_rename_dict cs) ` e \<inter> H = {} \<longleftrightarrow> e \<inter> H = {}"
  using mapping_get_separate[OF assms] by auto

lemma new_edges_names:
  assumes "e \<in> new_edges cs"
  shows "commit_hash cs \<in> e \<and> e \<subseteq> insert (commit_hash cs) (other_names cs)"
proof -
  have "set (files_add_modify cs) \<subseteq> file_path ` set (code_changes cs)"
    by (auto simp: files_add_modify_def)
  then show ?thesis using assms by (auto simp: new_edges_def other_names_def)
qed

lemma step_edges_cases:
  assumes "e \<in> step_edges limit cs E"
  shows "(\<exists>e0 \<in> E. e = mapping_get (files_rename_dict cs) ` e0 \<and> e \<inter> set (files_delete cs) = {})
         \<or> (\<not> int (length (files_add_modify cs)) > limit \<and> e \<in> new_edges cs)"
proof (cases "int (length (files_add_modify cs)) > limit")
  case True
  then have "e \<in> {e \<in> (\<lambda>e. mapping_get (files_rename_dict cs) ` e) ` E. e \<inter> set (files_delete cs) = {}}"
    using assms by (simp add: step_edges_def)
  then show ?thesis by blast
next
  case False
  then have "e \<in> {e \<in> (\<lambda>e. mapping_get (files_rename_dict cs) ` e) ` E. e \<inter> set (files_delete cs) = {}}
             \<or> e \<in> new_edges cs"
    using assms by (simp add: step_edges_def)
  then show ?thesis using False by blast
qed

lemma step_edges_touch:
  assumes "commit_hash cs \<in> H" "H \<inter> other_names cs = {}" "\<forall>e \<in> E. e \<inter> H \<noteq> {}"
  shows "\<forall>e \<in> step_edges limit cs E. e \<inter> H \<noteq> {}"
proof
  fix e assume "e \<in> step_edges limit cs E"
  then consider (old) e0 where "e0 \<in> E" "e = mapping_get (files_rename_dict cs) ` e0"
    | (new) "e \<in> new_edges cs"
    using step_edges_cases by blast
  then show "e \<inter> H \<noteq> {}"
  proof cases
    case old
    then have "e0 \<inter> H \<noteq> {}" using assms(3) by blast
    then show ?thesis using image_separate[OF assms(2), of e0] old(2) by simp
  next
    case new
    have "commit_hash cs \<in> e" using new_edges_names[OF new] by simp
    then show ?thesis using assms(1) by blast
  qed
qed

lemma step_edges_filter:
  assumes "H \<inter> insert (commit_hash cs) (other_names cs) = {}"
  shows "{e \<in> step_edges limit cs E. e \<inter> H = {}} = step_edges limit cs {e \<in> E. e \<inter> H = {}}"
proof -
  have sep: "H \<inter> other_names cs = {}" using assms by blast
  have new: "e \<inter> H = {}" if "e \<in> new_edges cs" for e
  proof -
    have "e \<subseteq> insert (commit_hash cs) (other_names cs)" using new_edges_names[OF that] by simp
    then show ?thesis using assms by blast
  qed
  define m where "m = (\<lambda>e. mapping_get (files_rename_dict cs) ` e)"
  define D where "D = set (files_delete cs)"
  define N where "N = (if int (length (files_add_modify cs)) > limit then {} else new_edges cs)"
  have im: "m e \<inter> H = {} \<longleftrightarrow> e \<inter> H = {}" for e
    unfolding m_def by (rule image_separate[OF sep])
  have N: "e \<inter> H = {}" if "e \<in> N" for e using that new by (simp add: N_def split: if_splits)
  have st: "step_edges limit cs X = {e \<in> m ` X. e \<inter> D = {}} \<union> N" for X
    by (simp add: step_edges_def m_def D_def N_def)
  have 1: "{e \<in> {e \<in> m ` E. e \<inter> D = {}}. e \<inter> H = {}} = {e \<in> m ` {e \<in> E. e \<inter> H = {}}. e \<inter> D = {}}"
  proof (rule set_eqI)
    fix e
    show "e \<in> {e \<in> {e \<in> m ` E. e \<inter> D = {}}. e \<inter> H = {}}
            \<longleftrightarrow> e \<in> {e \<in> m ` {e \<in> E. e \<inter> H = {}}. e \<inter> D = {}}"
    proof
      assume "e \<in> {e \<in> {e \<in> m ` E. e \<inter> D = {}}. e \<inter> H = {}}"
      then obtain e0 where e0: "e0 \<in> E" "e = m e0" and d: "e \<inter> D = {}" and h: "e \<inter> H = {}"
        by blast
      have "e0 \<inter> H = {}" using h im[of e0] e0(2) by simp
      then have "e \<in> m ` {e \<in> E. e \<inter> H = {}}" using e0 by blast
      then show "e \<in> {e \<in> m ` {e \<in> E. e \<inter> H = {}}. e \<inter> D = {}}" using d by simp
    next
      assume "e \<in> {e \<in> m ` {e \<in> E. e \<inter> H = {}}. e \<inter> D = {}}"
      then obtain e0 where e0: "e0 \<in> E" "e0 \<inter> H = {}" "e = m e0" and d: "e \<inter> D = {}"
        by blast
      have "e \<inter> H = {}" using e0(2,3) im[of e0] by simp
      moreover have "e \<in> m ` E" using e0 by blast
      ultimately show "e \<in> {e \<in> {e \<in> m ` E. e \<inter> D = {}}. e \<inter> H = {}}" using d by simp
    qed
  qed
  have 2: "{e \<in> N. e \<inter> H = {}} = N" using N by blast
  have "{e \<in> step_edges limit cs E. e \<inter> H = {}}
          = {e \<in> {e \<in> m ` E. e \<inter> D = {}}. e \<inter> H = {}} \<union> {e \<in> N. e \<inter> H = {}}"
    unfolding st by blast
  also have "\<dots> = {e \<in> m ` {e \<in> E. e \<inter> H = {}}. e \<inter> D = {}} \<union> N"
    unfolding 1 2 ..
  also have "\<dots> = step_edges limit cs {e \<in> E. e \<inter> H = {}}" unfolding st ..
  finally show ?thesis .
qed

lemma fold_step_edges_touch:
  assumes "\<forall>cs \<in> set css. commit_hash cs \<in> H \<and> H \<inter> other_names cs = {}"
    and "\<forall>e \<in> E. e \<inter> H \<noteq> {}"
  shows "\<forall>e \<in> fold (step_edges limit) css E. e \<inter> H \<noteq> {}"
  using assms
proof (induction css arbitrary: E)
  case Nil
  then show ?case by simp
next
  case (Cons cs css)
  have "\<forall>e \<in> step_edges limit cs E. e \<inter> H \<noteq> {}"
    using Cons.prems by (intro step_edges_touch) simp_all
  then show ?case using Cons.IH[of "step_edges limit cs E"] Cons.prems(1) by simp
qed

lemma fold_step_edges_filter:
  assumes "\<forall>cs \<in> set css. H \<inter> insert (commit_hash cs) (other_names cs) = {}"
  shows "{e \<in> fold (step_edges limit) css E. e \<inter> H = {}}
           = fold (step_edges limit) css {e \<in> E. e \<inter> H = {}}"
  using assms
proof (induction css arbitrary: E)
  case Nil
  then show ?case by simp
next
  case (Cons cs css)
  have "{e \<in> fold (step_edges limit) css (step_edges limit cs E). e \<inter> H = {}}
          = fold (step_edges limit) css {e \<in> step_edges limit cs E. e \<inter> H = {}}"
    using Cons.prems by (intro Cons.IH) simp
  also have "{e \<in> step_edges limit cs E. e \<inter> H = {}} = step_edges limit cs {e \<in> E. e \<inter> H = {}}"
    using Cons.prems by (intro step_edges_filter) simp
  finally show ?case by simp
qed

lemma drop_leaving_change_sets:
  assumes "\<forall>cs \<in> set rm. H \<inter> other_names cs = {}" and "H = commit_hash ` set rm"
    and "\<forall>cs \<in> set rest. H \<inter> insert (commit_hash cs) (other_names cs) = {}"
  shows "{e \<in> fold (step_edges limit) (rm @ rest) {}. e \<inter> H = {}} = fold (step_edges limit) rest {}"
proof -
  have "\<forall>e \<in> fold (step_edges limit) rm {}. e \<inter> H \<noteq> {}"
    using assms(1,2) by (intro fold_step_edges_touch) auto
  then have e: "{e \<in> fold (step_edges limit) rm {}. e \<inter> H = {}} = {}" by blast
  have "{e \<in> fold (step_edges limit) (rm @ rest) {}. e \<inter> H = {}}
          = {e \<in> fold (step_edges limit) rest (fold (step_edges limit) rm {}). e \<inter> H = {}}"
    by simp
  also have "\<dots> = fold (step_edges limit) rest {e \<in> fold (step_edges limit) rm {}. e \<inter> H = {}}"
    using assms(3) by (rule fold_step_edges_filter)
  finally show ?thesis unfolding e .
qed

end
